theory Spec2Isabelle
  imports Main "HOL-Library.AList"
begin

chapter \<open>pr-parser: title formatting and screenshot grouping\<close>

text \<open>
  A shallow embedding of the pure core of the repository: \<^verbatim>\<open>parseFilename\<close>,
  \<^verbatim>\<open>parseImages\<close>, \<^verbatim>\<open>parseImagesMarkdown\<close> and \<^verbatim>\<open>groupImagesByCategory\<close> from
  \<^verbatim>\<open>src/images/mod.ts\<close>, and \<^verbatim>\<open>parsePRTitle\<close> from \<^verbatim>\<open>src/pr-title/mod.ts\<close>.

  Modelling conventions.
  \<^item> A JavaScript string is a \<^typ>\<open>string\<close>. The model is of ASCII text: the character
    classes \<^verbatim>\<open>\s\<close>, \<^verbatim>\<open>\d\<close>, \<^verbatim>\<open>[A-Za-z]\<close> and the case mappings are the ASCII ones, and
    a \<^typ>\<open>char\<close> above 127 stands for a character that is neither white space nor a
    letter and has no other case.
  \<^item> The \<^verbatim>\<open>order\<close> field is a natural number: \<^verbatim>\<open>parseInt\<close> of a digit run, taken
    exactly (a JavaScript number is exact below \<open>2 ^ 53\<close>).
  \<^item> Each regular expression of the source is a function that returns what the
    backtracking matcher returns: the leftmost match, greedy quantifiers first.
  \<^item> A \<^verbatim>\<open>Map\<close> is an association list in insertion order.
\<close>

section \<open>Characters and strings\<close>

text \<open>
  The character class \<^verbatim>\<open>\s\<close> and the characters \<^verbatim>\<open>trim()\<close> strips, within ASCII:
  space, tab, line feed, vertical tab, form feed, carriage return.
\<close>

definition isSpace :: "char \<Rightarrow> bool" where
  "isSpace c \<longleftrightarrow> c \<in> set [CHR '' '', CHR 0x09, CHR 0x0A, CHR 0x0B, CHR 0x0C, CHR 0x0D]"

text \<open>\<^verbatim>\<open>\d\<close>\<close>

definition isDigit :: "char \<Rightarrow> bool" where
  "isDigit c \<longleftrightarrow> c \<in> set ''0123456789''"

definition isUpper :: "char \<Rightarrow> bool" where
  "isUpper c \<longleftrightarrow> c \<in> set ''ABCDEFGHIJKLMNOPQRSTUVWXYZ''"

definition isLower :: "char \<Rightarrow> bool" where
  "isLower c \<longleftrightarrow> c \<in> set ''abcdefghijklmnopqrstuvwxyz''"

text \<open>\<^verbatim>\<open>[A-Za-z]\<close>\<close>

definition isLetter :: "char \<Rightarrow> bool" where
  "isLetter c \<longleftrightarrow> isUpper c \<or> isLower c"

text \<open>\<^verbatim>\<open>[a-z0-9]\<close> under the \<^verbatim>\<open>i\<close> flag.\<close>

definition isAlnum :: "char \<Rightarrow> bool" where
  "isAlnum c \<longleftrightarrow> isLetter c \<or> isDigit c"

text \<open>
  The line terminators, which \<^verbatim>\<open>.\<close> does not match (the patterns have no \<^verbatim>\<open>s\<close>
  flag). JavaScript has four: line feed, carriage return, U+2028 and U+2029. The last
  two are outside ASCII, so a string of this model cannot hold them, and the predicate
  names the two it can hold.
\<close>

definition isLineTerminator :: "char \<Rightarrow> bool" where
  "isLineTerminator c \<longleftrightarrow> c = CHR 0x0A \<or> c = CHR 0x0D"

definition toLower :: "char \<Rightarrow> char" where
  "toLower c =
     (case map_of (zip ''ABCDEFGHIJKLMNOPQRSTUVWXYZ'' ''abcdefghijklmnopqrstuvwxyz'') c of
        None \<Rightarrow> c | Some d \<Rightarrow> d)"

definition toUpper :: "char \<Rightarrow> char" where
  "toUpper c =
     (case map_of (zip ''abcdefghijklmnopqrstuvwxyz'' ''ABCDEFGHIJKLMNOPQRSTUVWXYZ'') c of
        None \<Rightarrow> c | Some d \<Rightarrow> d)"

definition toLowerCase :: "string \<Rightarrow> string" where
  "toLowerCase s = map toLower s"

definition toUpperCase :: "string \<Rightarrow> string" where
  "toUpperCase s = map toUpper s"

text \<open>\<^verbatim>\<open>s.trim()\<close>\<close>

definition trim :: "string \<Rightarrow> string" where
  "trim s = rev (dropWhile isSpace (rev (dropWhile isSpace s)))"

text \<open>
  \<^verbatim>\<open>s.split(/\s+/)\<close>: the pieces between the maximal runs of white space. A run at the
  start or at the end leaves an empty piece there, and the empty string splits into one
  empty piece, so the result is never the empty list.
\<close>

function splitAcc :: "string \<Rightarrow> string \<Rightarrow> string list" where
  "splitAcc acc [] = [acc]"
| "splitAcc acc (c # cs) =
     (if isSpace c then acc # splitAcc [] (dropWhile isSpace cs)
      else splitAcc (acc @ [c]) cs)"
  by pat_completeness auto
termination
  by (relation "measure (\<lambda>(acc, s). length s)")
     (auto simp: le_imp_less_Suc length_dropWhile_le)

definition splitWs :: "string \<Rightarrow> string list" where
  "splitWs s = splitAcc [] s"

text \<open>\<^verbatim>\<open>words.join(" ")\<close>\<close>

fun joinWords :: "string list \<Rightarrow> string" where
  "joinWords [] = []"
| "joinWords [w] = w"
| "joinWords (w # v # ws) = w @ '' '' @ joinWords (v # ws)"

text \<open>\<^verbatim>\<open>parseInt\<close> of a run of decimal digits.\<close>

definition digitValue :: "char \<Rightarrow> nat" where
  "digitValue c = (case map_of (zip ''0123456789'' [0, 1, 2, 3, 4, 5, 6, 7, 8, 9]) c of
                     None \<Rightarrow> 0 | Some d \<Rightarrow> d)"

definition parseInt :: "string \<Rightarrow> nat" where
  "parseInt ds = foldl (\<lambda>n d. 10 * n + digitValue d) 0 ds"

text \<open>The double quote, which a string literal of this theory cannot hold.\<close>

definition dquote :: char where
  "dquote = CHR 0x22"

section \<open>Data model\<close>

text \<open>\<^verbatim>\<open>"before" | "after" | "standalone"\<close>\<close>

datatype Timing = Before | After | Standalone

text \<open>The object \<^verbatim>\<open>parseFilename\<close> returns.\<close>

record Parsed =
  order :: nat
  timing :: Timing
  formattedAlt :: string

section \<open>Filename parser (\<^verbatim>\<open>parseFilename\<close>)\<close>

text \<open>
  \<^verbatim>\<open>filename.match(/^(\d+)\.?\s*/)\<close>: the digit run, and what follows the whole match.
  Every quantifier is greedy and nothing follows them, so the first try of the matcher
  succeeds whenever there is a leading digit.
\<close>

definition prefixMatch :: "string \<Rightarrow> (string \<times> string) option" where
  "prefixMatch filename =
     (let digits = takeWhile isDigit filename;
          afterDigits = dropWhile isDigit filename;
          afterDot = (case afterDigits of
                        [] \<Rightarrow> []
                      | c # cs \<Rightarrow> if c = CHR ''.'' then cs else c # cs)
      in if digits = [] then None else Some (digits, dropWhile isSpace afterDot))"

text \<open>
  Whether the whole of \<open>s\<close> matches \<^verbatim>\<open>\s+WORD(?:\.[a-z0-9]+)?\s*\<close> under the \<^verbatim>\<open>i\<close> flag,
  for \<open>word\<close> in lower case: white space (one character at least), the word, then
  either white space up to the end, or a dot, one alphanumeric character at least, and
  white space up to the end. Giving back a character of a greedy run never helps, since
  the character that must follow each run is not of the run's class.
\<close>

definition timingSuffix :: "string \<Rightarrow> string \<Rightarrow> bool" where
  "timingSuffix word s =
     (let afterSpace = dropWhile isSpace s;
          afterWord = drop (length word) afterSpace
      in afterSpace \<noteq> s \<and>
         toLowerCase (take (length word) afterSpace) = word \<and>
         (list_all isSpace afterWord \<or>
          (case afterWord of
             [] \<Rightarrow> False
           | c # cs \<Rightarrow> c = CHR ''.'' \<and> takeWhile isAlnum cs \<noteq> [] \<and>
                       list_all isSpace (dropWhile isAlnum cs))))"

text \<open>
  \<^verbatim>\<open>normalized.match(/\s+WORD(?:\.[a-z0-9]+)?\s*$/i)\<close> together with
  \<^verbatim>\<open>normalized.replace(...same..., "")\<close>: the matcher tries the start positions from
  the left, and the pattern is anchored at the end, so the match is the longest suffix
  that matches as a whole. The result is \<open>None\<close> when nothing matches, and otherwise what
  is left of the string once the match is removed.
\<close>

fun removeTimingSuffix :: "string \<Rightarrow> string \<Rightarrow> string option" where
  "removeTimingSuffix word [] = (if timingSuffix word [] then Some [] else None)"
| "removeTimingSuffix word (c # cs) =
     (if timingSuffix word (c # cs) then Some []
      else map_option ((#) c) (removeTimingSuffix word cs))"

definition parseFilename :: "string \<Rightarrow> Parsed" where
  "parseFilename filename =
     (let order = (case prefixMatch filename of None \<Rightarrow> 0 | Some (digits, rest) \<Rightarrow> parseInt digits);
          withoutPrefix = (case prefixMatch filename of None \<Rightarrow> filename | Some (digits, rest) \<Rightarrow> rest);
          normalized = map (\<lambda>c. if c = CHR ''_'' then CHR '' '' else c) withoutPrefix
      in case removeTimingSuffix ''before'' normalized of
           Some content \<Rightarrow> \<lparr>order = order, timing = Before, formattedAlt = trim content\<rparr>
         | None \<Rightarrow>
             (case removeTimingSuffix ''after'' normalized of
                Some content \<Rightarrow> \<lparr>order = order, timing = After, formattedAlt = trim content\<rparr>
              | None \<Rightarrow> \<lparr>order = order, timing = Standalone, formattedAlt = trim normalized\<rparr>))"

text \<open>\<^verbatim>\<open>interface ImageInfo\<close> of \<^verbatim>\<open>src/types/mod.ts\<close>.\<close>

record ImageInfo =
  alt :: string
  src :: string
  category :: string
  timing :: Timing
  order :: nat

section \<open>Image extractor\<close>

text \<open>
  The object both extractors push for a kept pair:
  \<^verbatim>\<open>{ alt: parsed.formattedAlt, src, category: parsed.formattedAlt, timing: parsed.timing,
  order: parsed.order }\<close> with \<^verbatim>\<open>parsed = parseFilename(originalAlt)\<close>.
\<close>

definition toImageInfo :: "string \<Rightarrow> string \<Rightarrow> ImageInfo" where
  "toImageInfo originalAlt source =
     (let parsed = parseFilename originalAlt
      in \<lparr>alt = formattedAlt parsed, src = source, category = formattedAlt parsed,
          timing = Parsed.timing parsed, order = Parsed.order parsed\<rparr>)"

text \<open>
  \<^verbatim>\<open>images.sort((a, b) => a.order - b.order)\<close>. \<^verbatim>\<open>Array.prototype.sort\<close> is stable
  (ECMAScript 2019), and the comparator is negative, zero or positive as \<^verbatim>\<open>a.order\<close> is
  below, equal to or above \<^verbatim>\<open>b.order\<close>: the result is the stable sort by the
  \<^verbatim>\<open>order\<close> field, which is what insertion by key from the right computes.
\<close>

definition sortByOrder :: "ImageInfo list \<Rightarrow> ImageInfo list" where
  "sortByOrder images = foldr (insort_key ImageInfo.order) images []"

subsection \<open>Tag mode (\<^verbatim>\<open>parseImages\<close>)\<close>

text \<open>
  \<^verbatim>\<open>/<img[^>]+>/gi\<close> tried at the head of \<open>s\<close>: the text matched. The run \<^verbatim>\<open>[^>]+\<close>
  is greedy and only \<^verbatim>\<open>>\<close> can follow it, so it is the maximal run without \<^verbatim>\<open>>\<close>; it
  must be non-empty and must not reach the end of the string.
\<close>

definition imgTagAt :: "string \<Rightarrow> string option" where
  "imgTagAt s =
     (let body = takeWhile (\<lambda>c. c \<noteq> CHR ''>'') (drop 4 s)
      in if toLowerCase (take 4 s) = ''<img'' \<and> body \<noteq> [] \<and> drop (4 + length body) s \<noteq> []
         then Some (take (4 + length body + 1) s)
         else None)"

lemma imgTagAt_length: "imgTagAt s = Some tag \<Longrightarrow> 0 < length tag \<and> length tag \<le> length s"
  by (auto simp: imgTagAt_def Let_def split: if_splits)

text \<open>
  \<^verbatim>\<open>while ((match = imgRegex.exec(htmlContent)) !== null)\<close>: the successive matches of the
  global pattern, each search starting where the match before ended, the string being
  given from that point on.
\<close>

function imgTags :: "string \<Rightarrow> string list" where
  "imgTags [] = []"
| "imgTags (c # cs) =
     (case imgTagAt (c # cs) of
        Some tag \<Rightarrow> tag # imgTags (drop (length tag) (c # cs))
      | None \<Rightarrow> imgTags cs)"
  by pat_completeness auto
termination
  by (relation "measure length") (auto dest: imgTagAt_length)

text \<open>
  \<^verbatim>\<open>/NAME="([^"]+)"/i\<close> tried at the head of \<open>s\<close>, for \<open>name\<close> in lower case: the
  captured group, a maximal non-empty run without a double quote that a double quote
  follows.
\<close>

definition attrValueAt :: "string \<Rightarrow> string \<Rightarrow> string option" where
  "attrValueAt name s =
     (let n = length name + 2;
          v = takeWhile (\<lambda>c. c \<noteq> dquote) (drop n s)
      in if toLowerCase (take n s) = name @ [CHR ''='', dquote] \<and> v \<noteq> [] \<and>
            drop (n + length v) s \<noteq> []
         then Some v
         else None)"

text \<open>\<^verbatim>\<open>imgTag.match(/NAME="([^"]+)"/i)\<close>: group 1 of the leftmost match.\<close>

fun attrMatch :: "string \<Rightarrow> string \<Rightarrow> string option" where
  "attrMatch name [] = None"
| "attrMatch name (c # cs) =
     (case attrValueAt name (c # cs) of
        Some v \<Rightarrow> Some v
      | None \<Rightarrow> attrMatch name cs)"

text \<open>The body of the loop: what one tag adds to \<^verbatim>\<open>images\<close>.\<close>

definition tagImage :: "string \<Rightarrow> ImageInfo list" where
  "tagImage imgTag =
     (let originalAlt = (case attrMatch ''alt'' imgTag of Some v \<Rightarrow> v | None \<Rightarrow> []);
          source = (case attrMatch ''src'' imgTag of Some v \<Rightarrow> v | None \<Rightarrow> [])
      in if originalAlt \<noteq> [] \<and> source \<noteq> [] then [toImageInfo originalAlt source] else [])"

text \<open>\<^verbatim>\<open>images\<close> when the loop ends, in document order.\<close>

definition tagImages :: "string \<Rightarrow> ImageInfo list" where
  "tagImages htmlContent = concat (map tagImage (imgTags htmlContent))"

definition parseImages :: "string \<Rightarrow> ImageInfo list" where
  "parseImages htmlContent = sortByOrder (tagImages htmlContent)"

subsection \<open>Link mode (\<^verbatim>\<open>parseImagesMarkdown\<close>)\<close>

text \<open>\<^verbatim>\<open>content[i]\<close>, which is \<^verbatim>\<open>undefined\<close> out of range.\<close>

definition charAt :: "string \<Rightarrow> nat \<Rightarrow> char option" where
  "charAt content i = (if i < length content then Some (content ! i) else None)"

text \<open>\<^verbatim>\<open>content.slice(a, b)\<close> for \<open>a \<le> b\<close>.\<close>

definition slice :: "string \<Rightarrow> nat \<Rightarrow> nat \<Rightarrow> string" where
  "slice content a b = take (b - a) (drop a content)"

text \<open>\<^verbatim>\<open>content.indexOf("![", index)\<close>, with \<open>None\<close> for \<^verbatim>\<open>-1\<close>.\<close>

function indexOfMarker :: "string \<Rightarrow> nat \<Rightarrow> nat option" where
  "indexOfMarker content index =
     (if index + 1 < length content
      then if content ! index = CHR ''!'' \<and> content ! (index + 1) = CHR ''[''
           then Some index
           else indexOfMarker content (index + 1)
      else None)"
  by pat_completeness auto
termination
  by (relation "measure (\<lambda>(content, index). length content - index)") auto

declare indexOfMarker.simps [simp del]

text \<open>
  \<^verbatim>\<open>readUntil(altStart, (char, idx) => char === "]" && content[idx - 1] !== "\\")\<close>: the
  \<^verbatim>\<open>endIndex\<close> of the result (its \<^verbatim>\<open>value\<close> is the slice from \<^verbatim>\<open>altStart\<close> to there),
  or \<open>None\<close> for \<^verbatim>\<open>null\<close>. At index 0 there is no character before.
\<close>

function readUntil :: "string \<Rightarrow> nat \<Rightarrow> nat option" where
  "readUntil content index =
     (if index < length content
      then if content ! index = CHR '']'' \<and>
              (index = 0 \<or> content ! (index - 1) \<noteq> CHR 0x5C)
           then Some index
           else readUntil content (index + 1)
      else None)"
  by pat_completeness auto
termination
  by (relation "measure (\<lambda>(content, index). length content - index)") auto

declare readUntil.simps [simp del]

text \<open>\<^verbatim>\<open>while (cursor < content.length && /\s/.test(content[cursor])) cursor += 1\<close>\<close>

function skipSpaces :: "string \<Rightarrow> nat \<Rightarrow> nat" where
  "skipSpaces content cursor =
     (if cursor < length content \<and> isSpace (content ! cursor)
      then skipSpaces content (cursor + 1)
      else cursor)"
  by pat_completeness auto
termination
  by (relation "measure (\<lambda>(content, cursor). length content - cursor)") auto

declare skipSpaces.simps [simp del]

text \<open>
  \<^verbatim>\<open>while (cursor < content.length && depth > 0)\<close>: the values of \<^verbatim>\<open>cursor\<close> and
  \<^verbatim>\<open>depth\<close> when the loop ends.
\<close>

function scanParens :: "string \<Rightarrow> nat \<Rightarrow> nat \<Rightarrow> nat \<times> nat" where
  "scanParens content cursor depth =
     (if cursor < length content \<and> depth > 0
      then scanParens content (cursor + 1)
             (if content ! cursor = CHR ''('' then depth + 1
              else if content ! cursor = CHR '')'' then depth - 1
              else depth)
      else (cursor, depth))"
  by pat_completeness auto
termination
  by (relation "measure (\<lambda>(content, cursor, depth). length content - cursor)") auto

declare scanParens.simps [simp del]

text \<open>
  The source taken from \<^verbatim>\<open>inner\<close>, the trimmed text between the parentheses: for a
  text that starts with \<^verbatim>\<open><\<close>, what stands before the first \<^verbatim>\<open>>\<close> when
  \<^verbatim>\<open>inner.indexOf(">") > 1\<close>, trimmed, and nothing otherwise; for any other text,
  \<^verbatim>\<open>inner.split(/\s+/)[0] ?? ""\<close>.
\<close>

definition linkSource :: "string \<Rightarrow> string" where
  "linkSource inner =
     (if take 1 inner = ''<''
      then (let close = length (takeWhile (\<lambda>c. c \<noteq> CHR ''>'') inner)
            in if close < length inner \<and> close > 1 then trim (slice inner 1 close) else [])
      else (case splitWs inner of [] \<Rightarrow> [] | w # ws \<Rightarrow> w))"

lemma indexOfMarker_ge: "indexOfMarker content index = Some start \<Longrightarrow> index \<le> start"
proof (induction content index rule: indexOfMarker.induct)
  case (1 content index)
  then show ?case
    by (subst (asm) (2) indexOfMarker.simps) (force split: if_splits)
qed

lemma readUntil_ge: "readUntil content index = Some endIndex \<Longrightarrow> index \<le> endIndex"
proof (induction content index rule: readUntil.induct)
  case (1 content index)
  then show ?case
    by (subst (asm) (2) readUntil.simps) (force split: if_splits)
qed

lemma skipSpaces_ge: "cursor \<le> skipSpaces content cursor"
proof (induction content cursor rule: skipSpaces.induct)
  case (1 content cursor)
  then show ?case
    by (subst skipSpaces.simps) force
qed

lemma scanParens_ge: "scanParens content cursor depth = (cursor', depth') \<Longrightarrow> cursor \<le> cursor'"
proof (induction content cursor depth rule: scanParens.induct)
  case (1 content cursor depth)
  then show ?case
    by (subst (asm) (2) scanParens.simps) (force split: if_splits)
qed

text \<open>
  The main loop \<^verbatim>\<open>while (index < content.length)\<close>: what is pushed to \<^verbatim>\<open>images\<close> from
  \<open>index\<close> on. The two \<^verbatim>\<open>break\<close>s end the list; the two \<^verbatim>\<open>continue\<close>s go on from
  \<^verbatim>\<open>start + 2\<close>; a complete link goes on from the cursor after its closing parenthesis.
\<close>

function mdLoop :: "string \<Rightarrow> nat \<Rightarrow> ImageInfo list" where
  "mdLoop content index =
     (if index < length content
      then (case indexOfMarker content index of
              None \<Rightarrow> []
            | Some start \<Rightarrow>
                (case readUntil content (start + 2) of
                   None \<Rightarrow> []
                 | Some endIndex \<Rightarrow>
                     if charAt content (skipSpaces content (endIndex + 1)) \<noteq> Some CHR ''(''
                     then mdLoop content (start + 2)
                     else (case scanParens content (skipSpaces content (endIndex + 1) + 1) 1 of
                             (cursor, depth) \<Rightarrow>
                               if depth \<noteq> 0 then mdLoop content (start + 2)
                               else
                                 (let originalAlt = slice content (start + 2) endIndex;
                                      inner = trim (slice content
                                                (skipSpaces content (endIndex + 1) + 1) (cursor - 1));
                                      source = linkSource inner
                                  in if originalAlt \<noteq> [] \<and> source \<noteq> []
                                     then [toImageInfo originalAlt source]
                                     else [])
                                 @ mdLoop content cursor)))
      else [])"
  by pat_completeness auto
termination
proof (relation "measure (\<lambda>(content, index). length content - index)", goal_cases)
  case 1
  show ?case by simp
next
  case (2 content index start endIndex)
  then show ?case
    using indexOfMarker_ge[of content index start] by simp
next
  case (3 content index start endIndex cursor depth)
  then show ?case
    using indexOfMarker_ge[of content index start] by simp
next
  case (4 content index start endIndex cursor depth)
  have "index \<le> start" using 4(2) by (rule indexOfMarker_ge)
  moreover have "start + 2 \<le> endIndex" using 4(3) by (rule readUntil_ge)
  moreover have "endIndex + 1 \<le> skipSpaces content (endIndex + 1)" by (rule skipSpaces_ge)
  moreover have "skipSpaces content (endIndex + 1) + 1 \<le> cursor"
    using 4(5) scanParens_ge[of content "skipSpaces content (endIndex + 1) + 1" 1 cursor depth]
    by simp
  ultimately show ?case
    using 4(1) by simp
qed

declare mdLoop.simps [simp del]

definition parseImagesMarkdown :: "string \<Rightarrow> ImageInfo list" where
  "parseImagesMarkdown markdownContent = sortByOrder (mdLoop markdownContent 0)"

text \<open>\<^verbatim>\<open>parseImagesFromClipboard\<close>: \<^verbatim>\<open>startsWith("<img")\<close> is case sensitive.\<close>

definition parseImagesFromClipboard :: "string \<Rightarrow> ImageInfo list" where
  "parseImagesFromClipboard clipboardContent =
     (let trimmed = trim clipboardContent
      in if take 4 trimmed = ''<img'' then parseImages trimmed
         else parseImagesMarkdown trimmed)"

subsection \<open>Vocabulary of the claim on the two grammars\<close>

text \<open>The two documents of the claim, for a label \<open>A\<close> and a source \<open>U\<close>.\<close>

definition imgTagOf :: "string \<Rightarrow> string \<Rightarrow> string" where
  "imgTagOf A U = ''<img alt='' @ [dquote] @ A @ [dquote] @ '' src='' @ [dquote] @ U @ [dquote] @ ''>''"

definition imgLinkOf :: "string \<Rightarrow> string \<Rightarrow> string" where
  "imgLinkOf A U = ''!['' @ A @ '']('' @ U @ '')''"

text \<open>
  The labels of the claim: non-empty, without a double quote and without an unescaped
  \<^verbatim>\<open>]\<close> (every \<^verbatim>\<open>]\<close> has a backslash just before it).
\<close>

definition claimLabel :: "string \<Rightarrow> bool" where
  "claimLabel A \<longleftrightarrow>
     A \<noteq> [] \<and> dquote \<notin> set A \<and>
     list_all (\<lambda>i. A ! i \<noteq> CHR '']'' \<or> (0 < i \<and> A ! (i - 1) = CHR 0x5C)) [0..<length A]"

text \<open>The sources of the claim: non-empty, without white space and parentheses.\<close>

definition claimSource :: "string \<Rightarrow> bool" where
  "claimSource U \<longleftrightarrow>
     U \<noteq> [] \<and> \<not> list_ex (\<lambda>c. isSpace c \<or> c = CHR ''('' \<or> c = CHR '')'') U"

text \<open>
  What the two grammars ask beyond the claim. Of the label: no \<^verbatim>\<open>>\<close> (it would end the
  tag), no backslash at the end (it would escape the closing bracket), and no ending
  \<^verbatim>\<open>src=\<close> in any letter case (with the closing quote of \<^verbatim>\<open>alt\<close> it would read as the
  \<^verbatim>\<open>src\<close> attribute). Of the source: no double quote and no \<^verbatim>\<open>>\<close>, and no \<^verbatim>\<open><\<close> at the
  start (which opens an angle-bracket target in link mode).
\<close>

definition plainLabel :: "string \<Rightarrow> bool" where
  "plainLabel A \<longleftrightarrow>
     CHR ''>'' \<notin> set A \<and> last A \<noteq> CHR 0x5C \<and>
     toLowerCase (drop (length A - 4) A) \<noteq> ''src=''"

definition plainSource :: "string \<Rightarrow> bool" where
  "plainSource U \<longleftrightarrow> dquote \<notin> set U \<and> CHR ''>'' \<notin> set U \<and> take 1 U \<noteq> ''<''"

section \<open>Grouping engine (\<^verbatim>\<open>groupImagesByCategory\<close>)\<close>

text \<open>
  A value of the \<^verbatim>\<open>pairedGroups\<close> map:
  \<^verbatim>\<open>{ before?: ImageInfo; after?: ImageInfo; order: number }\<close>.
\<close>

record Group =
  before :: "ImageInfo option"
  after :: "ImageInfo option"
  order :: nat

text \<open>
  The value the function returns. \<^verbatim>\<open>pairedGroups\<close> is a \<^verbatim>\<open>Map\<close>, which iterates in
  insertion order: an association list with one entry per key, a new key going to the end.
\<close>

record Grouping =
  standaloneImages :: "ImageInfo list"
  pairedGroups :: "(string \<times> Group) list"

text \<open>
  One pass of the body of \<^verbatim>\<open>for (const image of images)\<close>. In the source the group is
  created by \<^verbatim>\<open>pairedGroups.set(image.category, { order: image.order })\<close> when the key is
  absent, fetched with \<^verbatim>\<open>get\<close>, and mutated in place: \<^verbatim>\<open>group[image.timing] = image\<close>
  then \<^verbatim>\<open>group.order = Math.min(group.order, image.order)\<close>. Here \<open>group0\<close> is the
  fetched or fresh group, and \<^const>\<open>AList.update\<close> writes the mutated group back: in
  place for a key already there, at the end for a new key.
\<close>

definition addImage :: "ImageInfo \<Rightarrow> Grouping \<Rightarrow> Grouping" where
  "addImage img st =
     (if ImageInfo.timing img = Standalone
      then st\<lparr>standaloneImages := standaloneImages st @ [img]\<rparr>
      else
        let group0 = (case map_of (pairedGroups st) (category img) of
                        None \<Rightarrow> \<lparr>before = None, after = None, order = ImageInfo.order img\<rparr>
                      | Some g \<Rightarrow> g);
            group1 = (if ImageInfo.timing img = Before
                      then group0\<lparr>before := Some img\<rparr>
                      else group0\<lparr>after := Some img\<rparr>);
            group2 = group1\<lparr>Group.order := min (Group.order group1) (ImageInfo.order img)\<rparr>
        in st\<lparr>pairedGroups := AList.update (category img) group2 (pairedGroups st)\<rparr>)"

fun groupLoop :: "ImageInfo list \<Rightarrow> Grouping \<Rightarrow> Grouping" where
  "groupLoop [] st = st"
| "groupLoop (img # rest) st = groupLoop rest (addImage img st)"

definition groupImagesByCategory :: "ImageInfo list \<Rightarrow> Grouping" where
  "groupImagesByCategory images =
     groupLoop images \<lparr>standaloneImages = [], pairedGroups = []\<rparr>"

subsection \<open>Vocabulary of the grouping claims\<close>

text \<open>The slot of a group that a timing names; \<^const>\<open>Standalone\<close> names none.\<close>

definition slot :: "Timing \<Rightarrow> Group \<Rightarrow> ImageInfo option" where
  "slot t g = (case t of Before \<Rightarrow> before g | After \<Rightarrow> after g | Standalone \<Rightarrow> None)"

text \<open>What \<^verbatim>\<open>pairedGroups.get(k)\<close> holds in the slot \<open>t\<close>, and its \<^verbatim>\<open>order\<close>.\<close>

definition slotOf :: "Timing \<Rightarrow> string \<Rightarrow> Grouping \<Rightarrow> ImageInfo option" where
  "slotOf t k st = (case map_of (pairedGroups st) k of None \<Rightarrow> None | Some g \<Rightarrow> slot t g)"

definition ordOf :: "string \<Rightarrow> Grouping \<Rightarrow> nat option" where
  "ordOf k st = map_option Group.order (map_of (pairedGroups st) k)"

definition minInto :: "nat option \<Rightarrow> ImageInfo \<Rightarrow> nat option" where
  "minInto acc r =
     Some (case acc of None \<Rightarrow> ImageInfo.order r | Some n \<Rightarrow> min n (ImageInfo.order r))"

text \<open>
  Flattening a grouping back into a sequence, in the words of the specification's
  round-trip property: the standalone sequence, then the records stored in the paired
  groups, group by group in map order, \<^verbatim>\<open>before\<close> ahead of \<^verbatim>\<open>after\<close>.
\<close>

definition slotRecords :: "Group \<Rightarrow> ImageInfo list" where
  "slotRecords g =
     (case before g of None \<Rightarrow> [] | Some b \<Rightarrow> [b]) @
     (case after g of None \<Rightarrow> [] | Some a \<Rightarrow> [a])"

definition flatten :: "Grouping \<Rightarrow> ImageInfo list" where
  "flatten r =
     standaloneImages r @ concat (map (\<lambda>kg. slotRecords (snd kg)) (pairedGroups r))"

text \<open>The least \<^verbatim>\<open>order\<close> among the records a group still stores.\<close>

definition slotMin :: "Group \<Rightarrow> nat" where
  "slotMin g =
     (case before g of
        None \<Rightarrow> (case after g of None \<Rightarrow> Group.order g | Some a \<Rightarrow> ImageInfo.order a)
      | Some b \<Rightarrow> (case after g of None \<Rightarrow> ImageInfo.order b
                               | Some a \<Rightarrow> min (ImageInfo.order b) (ImageInfo.order a)))"

definition storedOrder :: "string \<times> Group \<Rightarrow> string \<times> Group" where
  "storedOrder kg = (fst kg, (snd kg)\<lparr>Group.order := slotMin (snd kg)\<rparr>)"

text \<open>No two records of the sequence share a category and a non-standalone timing.\<close>

definition noRepeatedSlot :: "ImageInfo list \<Rightarrow> bool" where
  "noRepeatedSlot xs =
     distinct (map (\<lambda>r. (category r, ImageInfo.timing r))
                   (filter (\<lambda>r. ImageInfo.timing r \<noteq> Standalone) xs))"

text \<open>The invariant of the loop.\<close>

definition wfGroup :: "string \<Rightarrow> Group \<Rightarrow> bool" where
  "wfGroup k g \<longleftrightarrow>
     \<not> (before g = None \<and> after g = None) \<and>
     (case before g of None \<Rightarrow> True
      | Some r \<Rightarrow> ImageInfo.timing r = Before \<and> category r = k) \<and>
     (case after g of None \<Rightarrow> True
      | Some r \<Rightarrow> ImageInfo.timing r = After \<and> category r = k)"

definition wfGrouping :: "Grouping \<Rightarrow> bool" where
  "wfGrouping st \<longleftrightarrow>
     list_all (\<lambda>r. ImageInfo.timing r = Standalone) (standaloneImages st) \<and>
     distinct (map fst (pairedGroups st)) \<and>
     list_all (\<lambda>kg. wfGroup (fst kg) (snd kg)) (pairedGroups st)"

definition tight :: "Grouping \<Rightarrow> bool" where
  "tight st = list_all (\<lambda>kg. Group.order (snd kg) = slotMin (snd kg)) (pairedGroups st)"

section \<open>Title parser (\<^verbatim>\<open>parsePRTitle\<close>)\<close>

text \<open>
  \<^verbatim>\<open>trimmed.match(/^([A-Za-z]+)-(\d+)(?:-[^/]+)?\/(.+)$/)\<close>: the three captured groups.
  The letters and the digits are maximal runs (the character after each must be of
  another class). After the digits comes either the slash, or a hyphen, a non-empty run
  without a slash, and the first slash after it. The rest must be non-empty and reach
  the end of the string without a line terminator, which \<^verbatim>\<open>.\<close> does not match.
\<close>

definition slugRest :: "string \<Rightarrow> string option" where
  "slugRest rest =
     (if rest \<noteq> [] \<and> \<not> list_ex isLineTerminator rest then Some rest else None)"

definition slashSlugMatch :: "string \<Rightarrow> (string \<times> string \<times> string) option" where
  "slashSlugMatch trimmed =
     (let letters = takeWhile isLetter trimmed;
          digits = (case dropWhile isLetter trimmed of
                      [] \<Rightarrow> []
                    | c # cs \<Rightarrow> if c = CHR ''-'' then takeWhile isDigit cs else []);
          afterDigits = dropWhile isDigit (drop 1 (dropWhile isLetter trimmed))
      in if letters = [] \<or> digits = [] then None
         else (case afterDigits of
                 [] \<Rightarrow> None
               | c # cs \<Rightarrow>
                   if c = CHR ''/'' then map_option (\<lambda>rest. (letters, digits, rest)) (slugRest cs)
                   else if c = CHR ''-'' then
                     (case dropWhile (\<lambda>x. x \<noteq> CHR ''/'') cs of
                        [] \<Rightarrow> None
                      | slash # rest \<Rightarrow>
                          if takeWhile (\<lambda>x. x \<noteq> CHR ''/'') cs = [] then None
                          else map_option (\<lambda>rest. (letters, digits, rest)) (slugRest rest))
                   else None))"

text \<open>\<^verbatim>\<open>trimmed.match(/^([A-Za-z]+)-(\d+)-(.+)$/)\<close>\<close>

definition hyphenSlugMatch :: "string \<Rightarrow> (string \<times> string \<times> string) option" where
  "hyphenSlugMatch trimmed =
     (let letters = takeWhile isLetter trimmed;
          digits = (case dropWhile isLetter trimmed of
                      [] \<Rightarrow> []
                    | c # cs \<Rightarrow> if c = CHR ''-'' then takeWhile isDigit cs else []);
          afterDigits = dropWhile isDigit (drop 1 (dropWhile isLetter trimmed))
      in if letters = [] \<or> digits = [] then None
         else (case afterDigits of
                 [] \<Rightarrow> None
               | c # cs \<Rightarrow>
                   if c = CHR ''-'' then map_option (\<lambda>rest. (letters, digits, rest)) (slugRest cs)
                   else None))"

text \<open>\<^verbatim>\<open>featureSlug.replace(/[_-]+/g, " ")\<close>\<close>

definition isSep :: "char \<Rightarrow> bool" where
  "isSep c \<longleftrightarrow> c = CHR ''_'' \<or> c = CHR ''-''"

function replaceSepRuns :: "string \<Rightarrow> string" where
  "replaceSepRuns [] = []"
| "replaceSepRuns (c # cs) =
     (if isSep c then CHR '' '' # replaceSepRuns (dropWhile isSep cs)
      else c # replaceSepRuns cs)"
  by pat_completeness auto
termination
  by (relation "measure length") (auto simp: le_imp_less_Suc length_dropWhile_le)

text \<open>
  \<^verbatim>\<open>featureSlug.replace(/[_-]+/g, " ").split(/\s+/).filter(Boolean)\<close>: a string is
  truthy when it is not empty.
\<close>

definition slugWords :: "string \<Rightarrow> string list" where
  "slugWords featureSlug = filter (\<lambda>w. w \<noteq> []) (splitWs (replaceSepRuns featureSlug))"

text \<open>
  The feature words in the words of the specification, as one left-to-right pass: the
  rest is cut at every \<^verbatim>\<open>_\<close>, \<^verbatim>\<open>-\<close> and white-space character, and the empty pieces are
  dropped; what is left are the maximal non-empty runs of other characters. This
  definition is not taken from the source; \<^const>\<open>slugWords\<close> is, and the two are
  proved equal.
\<close>

fun tokensAcc :: "string \<Rightarrow> string \<Rightarrow> string list" where
  "tokensAcc acc [] = (if acc = [] then [] else [acc])"
| "tokensAcc acc (c # cs) =
     (if isSep c \<or> isSpace c
      then (if acc = [] then [] else [acc]) @ tokensAcc [] cs
      else tokensAcc (acc @ [c]) cs)"

definition featureTokens :: "string \<Rightarrow> string list" where
  "featureTokens rest = tokensAcc [] rest"

text \<open>The value of \<^verbatim>\<open>words\<close> once the first \<^verbatim>\<open>if (match)\<close> has run.\<close>

definition titleWords :: "string \<Rightarrow> string list" where
  "titleWords title =
     (let trimmed = trim title;
          match = (case slashSlugMatch trimmed of
                     Some m \<Rightarrow> Some m
                   | None \<Rightarrow> hyphenSlugMatch trimmed)
      in case match of
           Some (ticketPrefix, ticketNumber, featureSlug) \<Rightarrow>
             ticketPrefix # ticketNumber # slugWords featureSlug
         | None \<Rightarrow> splitWs trimmed)"

text \<open>
  The ticket identifier and \<^verbatim>\<open>remainingWords\<close>, for a non-empty \<^verbatim>\<open>words\<close>
  (\<open>w0 # ws\<close>): the chain of \<^verbatim>\<open>if\<close>s on \<^verbatim>\<open>firstWord\<close> and \<^verbatim>\<open>secondWord\<close>.
\<close>

definition ticketSplit :: "string \<Rightarrow> string list \<Rightarrow> string \<times> string list" where
  "ticketSplit w0 ws =
     (let words = w0 # ws;
          firstWord = toLowerCase (words ! 0);
          secondWord = (if length words > 1 then toLowerCase (words ! 1) else [])
      in if firstWord = ''no'' \<and> secondWord = ''ticket'' then (''[no-ticket]'', drop 2 words)
         else if firstWord = ''noticket'' then (''[no-ticket]'', drop 1 words)
         else if length words \<ge> 2
           then (''['' @ toUpperCase (words ! 0) @ ''-'' @ toUpperCase (words ! 1) @ '']'',
                 drop 2 words)
           else (''['' @ toUpperCase (words ! 0) @ '']'', []))"

text \<open>\<^verbatim>\<open>featureWords[i].toLowerCase() === "part" && /^\d+$/.test(featureWords[i + 1])\<close>\<close>

definition isPartAt :: "string list \<Rightarrow> nat \<Rightarrow> bool" where
  "isPartAt featureWords i \<longleftrightarrow>
     i + 1 < length featureWords \<and>
     toLowerCase (featureWords ! i) = ''part'' \<and>
     featureWords ! (i + 1) \<noteq> [] \<and> list_all isDigit (featureWords ! (i + 1))"

text \<open>
  The loop \<^verbatim>\<open>for (let i = featureWords.length - 2; i >= 0; i--)\<close>, with its \<^verbatim>\<open>break\<close>.
  The argument \<open>n\<close> is \<open>i + 1\<close>, so that \<open>n = 0\<close> is the exit of the loop; the result is
  \<^verbatim>\<open>partSuffix\<close> and \<^verbatim>\<open>featureWords\<close>. Every index read is in range, since the loop
  starts at \<open>n = length featureWords - 1\<close>.
\<close>

fun partLoop :: "string list \<Rightarrow> nat \<Rightarrow> string \<times> string list" where
  "partLoop featureWords 0 = ([], featureWords)"
| "partLoop featureWords (Suc i) =
     (if isPartAt featureWords i
      then (''[PART-'' @ featureWords ! (i + 1) @ '']'',
            take i featureWords @ drop (i + 2) featureWords)
      else partLoop featureWords i)"

text \<open>\<^verbatim>\<open>featureName.charAt(0).toUpperCase() + featureName.slice(1)\<close>\<close>

definition capitalize :: "string \<Rightarrow> string" where
  "capitalize featureName = (case featureName of [] \<Rightarrow> [] | c # cs \<Rightarrow> toUpper c # cs)"

text \<open>The function from \<^verbatim>\<open>if (words.length === 0)\<close> on.\<close>

definition formatWords :: "string list \<Rightarrow> string" where
  "formatWords words =
     (case words of
        [] \<Rightarrow> []
      | w0 # ws \<Rightarrow>
          (case ticketSplit w0 ws of
             (ticketId, remainingWords) \<Rightarrow>
               if remainingWords = [] then ticketId
               else (case partLoop remainingWords (length remainingWords - 1) of
                       (partSuffix, featureWords) \<Rightarrow>
                         if featureWords = [] \<and> partSuffix \<noteq> [] then ticketId @ '' '' @ partSuffix
                         else if partSuffix \<noteq> []
                           then ticketId @ '' '' @ partSuffix @ '' '' @ capitalize (joinWords featureWords)
                           else ticketId @ '' '' @ capitalize (joinWords featureWords))))"

definition parsePRTitle :: "string \<Rightarrow> string" where
  "parsePRTitle title = formatWords (titleWords title)"

section \<open>Properties of the grouping engine\<close>

lemma groupLoop_append: "groupLoop (xs @ ys) st = groupLoop ys (groupLoop xs st)"
  by (induction xs arbitrary: st) simp_all

lemma wfGroup_lookup:
  "list_all (\<lambda>kg. wfGroup (fst kg) (snd kg)) al \<Longrightarrow> map_of al k = Some g \<Longrightarrow> wfGroup k g"
  by (auto simp: list_all_iff dest!: map_of_SomeD)

lemma list_all_update:
  "list_all P al \<Longrightarrow> P (k, v) \<Longrightarrow> list_all P (AList.update k v al)"
  by (induction al) auto

lemma wfGroup_new:
  assumes "ImageInfo.timing img \<noteq> Standalone"
    and "case m of None \<Rightarrow> True | Some g \<Rightarrow> wfGroup (category img) g"
  shows "wfGroup (category img)
     ((if ImageInfo.timing img = Before
       then (case m of None \<Rightarrow> \<lparr>before = None, after = None, order = ImageInfo.order img\<rparr> | Some g \<Rightarrow> g)\<lparr>before := Some img\<rparr>
       else (case m of None \<Rightarrow> \<lparr>before = None, after = None, order = ImageInfo.order img\<rparr> | Some g \<Rightarrow> g)\<lparr>after := Some img\<rparr>)
      \<lparr>Group.order := n\<rparr>)"
  using assms by (cases "ImageInfo.timing img"; cases m) (simp_all add: wfGroup_def)

lemma wfGrouping_addImage: "wfGrouping st \<Longrightarrow> wfGrouping (addImage img st)"
proof (cases "ImageInfo.timing img = Standalone")
  case True
  assume "wfGrouping st"
  with True show ?thesis by (simp add: wfGrouping_def addImage_def)
next
  case False
  assume wf: "wfGrouping st"
  have m: "case map_of (pairedGroups st) (category img) of None \<Rightarrow> True | Some g \<Rightarrow> wfGroup (category img) g"
    using wf by (auto simp: wfGrouping_def split: option.splits intro: wfGroup_lookup)
  show ?thesis
    using wf False wfGroup_new[OF False m]
    by (simp add: wfGrouping_def addImage_def Let_def distinct_update list_all_update)
qed

lemma wfGrouping_groupLoop: "wfGrouping st \<Longrightarrow> wfGrouping (groupLoop xs st)"
  by (induction xs arbitrary: st) (simp_all add: wfGrouping_addImage)

lemma wfGrouping_group: "wfGrouping (groupImagesByCategory xs)"
  unfolding groupImagesByCategory_def by (rule wfGrouping_groupLoop) (simp add: wfGrouping_def)

text \<open>
  Claim C10. Every group stored in the \<^verbatim>\<open>pairedGroups\<close> map that
  \<^verbatim>\<open>groupImagesByCategory\<close> returns has its \<^verbatim>\<open>before\<close> or its \<^verbatim>\<open>after\<close> slot filled,
  and a filled slot holds a record whose timing names that slot and whose category is
  the key of the group.
\<close>

theorem groupImagesByCategory_slots_wellformed:
  assumes "(k, g) \<in> set (pairedGroups (groupImagesByCategory xs))"
  shows "\<not> (before g = None \<and> after g = None) \<and>
         (\<forall>r. before g = Some r \<longrightarrow> ImageInfo.timing r = Before \<and> category r = k) \<and>
         (\<forall>r. after g = Some r \<longrightarrow> ImageInfo.timing r = After \<and> category r = k)"
proof -
  have "list_all (\<lambda>kg. wfGroup (fst kg) (snd kg)) (pairedGroups (groupImagesByCategory xs))"
    using wfGrouping_group[of xs] by (simp add: wfGrouping_def)
  with assms have "wfGroup k g"
    by (auto simp: list_all_iff)
  then show ?thesis
    by (cases "before g"; cases "after g") (simp_all add: wfGroup_def)
qed

theorem groupImagesByCategory_slots_wellformed_witness:
  "(''x'', \<lparr>before = Some 
       \<lparr>alt = ''x'', src = ''u1'', category = ''x'', timing = Before, order = 1\<rparr>, after = Some 
       \<lparr>alt = ''x'', src = ''u3'', category = ''x'', timing = After, order = 3\<rparr>, order = 1\<rparr>)
     \<in> set (pairedGroups (groupImagesByCategory [
       \<lparr>alt = ''x'', src = ''u1'', category = ''x'', timing = Before, order = 1\<rparr>, 
       \<lparr>alt = ''x'', src = ''u3'', category = ''x'', timing = After, order = 3\<rparr>])) \<and>
   ImageInfo.timing 
       \<lparr>alt = ''x'', src = ''u1'', category = ''x'', timing = Before, order = 1\<rparr> = Before \<and> category 
       \<lparr>alt = ''x'', src = ''u1'', category = ''x'', timing = Before, order = 1\<rparr> = ''x'' \<and>
   ImageInfo.timing 
       \<lparr>alt = ''x'', src = ''u3'', category = ''x'', timing = After, order = 3\<rparr> = After \<and> category 
       \<lparr>alt = ''x'', src = ''u3'', category = ''x'', timing = After, order = 3\<rparr> = ''x''"
proof -
  have h: "(''x'', \<lparr>before = Some 
       \<lparr>alt = ''x'', src = ''u1'', category = ''x'', timing = Before, order = 1\<rparr>, after = Some 
       \<lparr>alt = ''x'', src = ''u3'', category = ''x'', timing = After, order = 3\<rparr>, order = 1\<rparr>)
     \<in> set (pairedGroups (groupImagesByCategory [
       \<lparr>alt = ''x'', src = ''u1'', category = ''x'', timing = Before, order = 1\<rparr>, 
       \<lparr>alt = ''x'', src = ''u3'', category = ''x'', timing = After, order = 3\<rparr>]))"
    by (simp add: groupImagesByCategory_def addImage_def Let_def)
  from groupImagesByCategory_slots_wellformed[OF h] h show ?thesis
    by simp
qed

lemma slotOf_addImage:
  "t \<noteq> Standalone \<Longrightarrow>
   slotOf t k (addImage img st) =
     (if category img = k \<and> ImageInfo.timing img = t then Some img else slotOf t k st)"
  by (cases t; cases "ImageInfo.timing img")
     (simp_all add: slotOf_def addImage_def Let_def update_conv' slot_def split: option.splits)

lemma slotOf_groupLoop:
  "t \<noteq> Standalone \<Longrightarrow>
   slotOf t k (groupLoop xs st) =
     (if filter (\<lambda>r. category r = k \<and> ImageInfo.timing r = t) xs = [] then slotOf t k st
      else Some (last (filter (\<lambda>r. category r = k \<and> ImageInfo.timing r = t) xs)))"
  by (induction xs arbitrary: st) (simp_all add: slotOf_addImage)

lemma slotOf_group:
  "t \<noteq> Standalone \<Longrightarrow>
   slotOf t k (groupImagesByCategory xs) =
     (if filter (\<lambda>r. category r = k \<and> ImageInfo.timing r = t) xs = [] then None
      else Some (last (filter (\<lambda>r. category r = k \<and> ImageInfo.timing r = t) xs)))"
  by (simp add: groupImagesByCategory_def slotOf_groupLoop) (simp add: slotOf_def)

text \<open>
  Claim C6. When the sequence holds records with the same category \<open>k\<close> and the same
  non-standalone timing \<open>t\<close> (two or more, or just one), the group stored under \<open>k\<close>
  exists and its slot \<open>t\<close> holds the last of them in the sequence: the earlier ones are
  overwritten, the function returns normally and nothing is merged.
\<close>

theorem groupImagesByCategory_last_write_wins:
  assumes "t \<noteq> Standalone"
    and "rs = filter (\<lambda>r. category r = k \<and> ImageInfo.timing r = t) xs"
    and "rs \<noteq> []"
  shows "\<exists>g. map_of (pairedGroups (groupImagesByCategory xs)) k = Some g \<and>
             slot t g = Some (last rs)"
  using slotOf_group[OF assms(1), of k xs] assms(2,3)
  by (auto simp: slotOf_def split: option.splits)

theorem groupImagesByCategory_last_write_wins_witness:
  "Before \<noteq> Standalone \<and>
   filter (\<lambda>r. category r = ''x'' \<and> ImageInfo.timing r = Before) [
       \<lparr>alt = ''x'', src = ''u1'', category = ''x'', timing = Before, order = 1\<rparr>, 
       \<lparr>alt = ''x'', src = ''u2'', category = ''x'', timing = Before, order = 2\<rparr>, 
       \<lparr>alt = ''x'', src = ''u3'', category = ''x'', timing = After, order = 3\<rparr>] = [
       \<lparr>alt = ''x'', src = ''u1'', category = ''x'', timing = Before, order = 1\<rparr>, 
       \<lparr>alt = ''x'', src = ''u2'', category = ''x'', timing = Before, order = 2\<rparr>] \<and>
   (\<exists>g. map_of (pairedGroups (groupImagesByCategory [
       \<lparr>alt = ''x'', src = ''u1'', category = ''x'', timing = Before, order = 1\<rparr>, 
       \<lparr>alt = ''x'', src = ''u2'', category = ''x'', timing = Before, order = 2\<rparr>, 
       \<lparr>alt = ''x'', src = ''u3'', category = ''x'', timing = After, order = 3\<rparr>])) ''x'' = Some g \<and>
        slot Before g = Some 
       \<lparr>alt = ''x'', src = ''u2'', category = ''x'', timing = Before, order = 2\<rparr>)"
proof -
  have f: "[
       \<lparr>alt = ''x'', src = ''u1'', category = ''x'', timing = Before, order = 1\<rparr>, 
       \<lparr>alt = ''x'', src = ''u2'', category = ''x'', timing = Before, order = 2\<rparr>] =
      filter (\<lambda>r. category r = ''x'' \<and> ImageInfo.timing r = Before) [
       \<lparr>alt = ''x'', src = ''u1'', category = ''x'', timing = Before, order = 1\<rparr>, 
       \<lparr>alt = ''x'', src = ''u2'', category = ''x'', timing = Before, order = 2\<rparr>, 
       \<lparr>alt = ''x'', src = ''u3'', category = ''x'', timing = After, order = 3\<rparr>]"
    by simp
  have t: "Before \<noteq> Standalone" by simp
  have n: "[
       \<lparr>alt = ''x'', src = ''u1'', category = ''x'', timing = Before, order = 1\<rparr>, 
       \<lparr>alt = ''x'', src = ''u2'', category = ''x'', timing = Before, order = 2\<rparr>] \<noteq> []" by simp
  from groupImagesByCategory_last_write_wins[OF t f n] f show ?thesis
    by simp
qed

lemma ordOf_addImage:
  "ordOf k (addImage img st) =
     (if category img = k \<and> ImageInfo.timing img \<noteq> Standalone then minInto (ordOf k st) img else ordOf k st)"
  by (cases "ImageInfo.timing img")
     (simp_all add: ordOf_def minInto_def addImage_def Let_def update_conv' split: option.splits)

lemma ordOf_groupLoop:
  "ordOf k (groupLoop xs st) =
     foldl minInto (ordOf k st) (filter (\<lambda>r. category r = k \<and> ImageInfo.timing r \<noteq> Standalone) xs)"
  by (induction xs arbitrary: st) (simp_all add: ordOf_addImage)

lemma foldl_minInto_Some:
  "foldl minInto (Some n) rs = Some (Min (insert n (set (map ImageInfo.order rs))))"
proof (induction rs arbitrary: n)
  case Nil
  show ?case by simp
next
  case (Cons r rs)
  have "Min (insert (min n (ImageInfo.order r)) (set (map ImageInfo.order rs)))
      = Min (insert n (insert (ImageInfo.order r) (set (map ImageInfo.order rs))))"
    by (cases "set (map ImageInfo.order rs) = {}") (simp_all add: min.assoc)
  with Cons show ?case by (simp add: minInto_def)
qed

lemma foldl_minInto_None:
  "foldl minInto None rs = (if rs = [] then None else Some (Min (set (map ImageInfo.order rs))))"
proof (cases rs)
  case Nil
  then show ?thesis by simp
next
  case (Cons r rs')
  have "foldl minInto None (r # rs') = foldl minInto (Some (ImageInfo.order r)) rs'"
    by (simp add: minInto_def)
  with Cons show ?thesis using foldl_minInto_Some[of "ImageInfo.order r" rs'] by simp
qed

lemma ordOf_group:
  "ordOf k (groupImagesByCategory xs) =
     (if filter (\<lambda>r. category r = k \<and> ImageInfo.timing r \<noteq> Standalone) xs = [] then None
      else Some (Min (set (map ImageInfo.order (filter (\<lambda>r. category r = k \<and> ImageInfo.timing r \<noteq> Standalone) xs)))))"
proof -
  have "ordOf k \<lparr>standaloneImages = [], pairedGroups = []\<rparr> = None"
    by (simp add: ordOf_def)
  then have "ordOf k (groupImagesByCategory xs) =
      foldl minInto None (filter (\<lambda>r. category r = k \<and> ImageInfo.timing r \<noteq> Standalone) xs)"
    by (simp add: groupImagesByCategory_def ordOf_groupLoop)
  then show ?thesis
    by (simp only: foldl_minInto_None)
qed

text \<open>
  Claim C7. The \<^verbatim>\<open>order\<close> of every paired group in the output is the minimum of the
  \<^verbatim>\<open>order\<close> fields over all non-standalone records of its category in the input,
  overwritten records included (and there is at least one such record).
\<close>

theorem groupImagesByCategory_order_is_min:
  assumes "(k, g) \<in> set (pairedGroups (groupImagesByCategory xs))"
  shows "filter (\<lambda>r. category r = k \<and> ImageInfo.timing r \<noteq> Standalone) xs \<noteq> [] \<and>
         Group.order g =
           Min (set (map ImageInfo.order
                  (filter (\<lambda>r. category r = k \<and> ImageInfo.timing r \<noteq> Standalone) xs)))"
proof -
  have "distinct (map fst (pairedGroups (groupImagesByCategory xs)))"
    using wfGrouping_group[of xs] by (simp add: wfGrouping_def)
  with assms have "map_of (pairedGroups (groupImagesByCategory xs)) k = Some g"
    by simp
  then have "ordOf k (groupImagesByCategory xs) = Some (Group.order g)"
    by (simp add: ordOf_def)
  then show ?thesis
    by (simp add: ordOf_group split: if_splits)
qed

theorem groupImagesByCategory_order_is_min_witness:
  "(''x'', \<lparr>before = Some 
       \<lparr>alt = ''x'', src = ''u1'', category = ''x'', timing = Before, order = 1\<rparr>, after = Some 
       \<lparr>alt = ''x'', src = ''u3'', category = ''x'', timing = After, order = 3\<rparr>, order = 1\<rparr>)
     \<in> set (pairedGroups (groupImagesByCategory [
       \<lparr>alt = ''x'', src = ''u2'', category = ''x'', timing = Before, order = 2\<rparr>, 
       \<lparr>alt = ''x'', src = ''u1'', category = ''x'', timing = Before, order = 1\<rparr>, 
       \<lparr>alt = ''x'', src = ''u3'', category = ''x'', timing = After, order = 3\<rparr>])) \<and>
   Min (set (map ImageInfo.order
     (filter (\<lambda>r. category r = ''x'' \<and> ImageInfo.timing r \<noteq> Standalone) [
       \<lparr>alt = ''x'', src = ''u2'', category = ''x'', timing = Before, order = 2\<rparr>, 
       \<lparr>alt = ''x'', src = ''u1'', category = ''x'', timing = Before, order = 1\<rparr>, 
       \<lparr>alt = ''x'', src = ''u3'', category = ''x'', timing = After, order = 3\<rparr>]))) = 1"
proof -
  have h: "(''x'', \<lparr>before = Some 
       \<lparr>alt = ''x'', src = ''u1'', category = ''x'', timing = Before, order = 1\<rparr>, after = Some 
       \<lparr>alt = ''x'', src = ''u3'', category = ''x'', timing = After, order = 3\<rparr>, order = 1\<rparr>)
     \<in> set (pairedGroups (groupImagesByCategory [
       \<lparr>alt = ''x'', src = ''u2'', category = ''x'', timing = Before, order = 2\<rparr>, 
       \<lparr>alt = ''x'', src = ''u1'', category = ''x'', timing = Before, order = 1\<rparr>, 
       \<lparr>alt = ''x'', src = ''u3'', category = ''x'', timing = After, order = 3\<rparr>]))"
    by (simp add: groupImagesByCategory_def addImage_def Let_def)
  from groupImagesByCategory_order_is_min[OF h] h show ?thesis
    by simp
qed

lemma groupLoop_standalone:
  "list_all (\<lambda>r. ImageInfo.timing r = Standalone) rs \<Longrightarrow>
   groupLoop rs st = st\<lparr>standaloneImages := standaloneImages st @ rs\<rparr>"
  by (induction rs arbitrary: st) (simp_all add: addImage_def)

lemma update_fresh: "map_of al k = None \<Longrightarrow> AList.update k v al = al @ [(k, v)]"
  by (induction al) (auto split: if_splits)

lemma update_last: "map_of al k = None \<Longrightarrow> AList.update k v (al @ [(k, w)]) = al @ [(k, v)]"
  by (induction al) (auto split: if_splits)

lemma map_of_snoc_fresh: "map_of al k = None \<Longrightarrow> map_of (al @ [(k, w)]) k = Some w"
  by (induction al) (auto split: if_splits)

lemma addImage_new:
  assumes "ImageInfo.timing img \<noteq> Standalone" and "map_of Q (category img) = None"
  shows "addImage img \<lparr>standaloneImages = S, pairedGroups = Q\<rparr> =
         \<lparr>standaloneImages = S,
          pairedGroups = Q @ [(category img,
            \<lparr>before = (if ImageInfo.timing img = Before then Some img else None),
             after = (if ImageInfo.timing img = Before then None else Some img),
             order = ImageInfo.order img\<rparr>)]\<rparr>"
  using assms by (simp add: addImage_def Let_def update_fresh)

lemma addImage_last:
  assumes "ImageInfo.timing img \<noteq> Standalone" and "map_of Q (category img) = None"
  shows "addImage img \<lparr>standaloneImages = S, pairedGroups = Q @ [(category img, g)]\<rparr> =
         \<lparr>standaloneImages = S,
          pairedGroups = Q @ [(category img,
            (if ImageInfo.timing img = Before then g\<lparr>before := Some img\<rparr> else g\<lparr>after := Some img\<rparr>)
              \<lparr>Group.order := min (Group.order g) (ImageInfo.order img)\<rparr>)]\<rparr>"
proof -
  have "map_of (Q @ [(category img, g)]) (category img) = Some g"
    by (rule map_of_snoc_fresh[OF assms(2)])
  then show ?thesis
    using assms by (simp add: addImage_def Let_def update_last del: map_of_append)
qed

lemma groupLoop_slotRecords:
  assumes "wfGroup k g" and "map_of Q k = None"
  shows "groupLoop (slotRecords g) \<lparr>standaloneImages = S, pairedGroups = Q\<rparr> =
         \<lparr>standaloneImages = S, pairedGroups = Q @ [storedOrder (k, g)]\<rparr>"
proof (cases g)
  case (fields bf af n)
  show ?thesis
  proof (cases bf)
    case None
    with assms(1) fields obtain a where a: "af = Some a" "ImageInfo.timing a = After" "category a = k"
      by (auto simp: wfGroup_def split: option.splits)
    show ?thesis
      using None a assms(2) fields
      by (simp add: slotRecords_def addImage_new storedOrder_def slotMin_def)
  next
    case (Some b)
    with assms(1) fields have b: "ImageInfo.timing b = Before" "category b = k"
      by (auto simp: wfGroup_def split: option.splits)
    show ?thesis
    proof (cases af)
      case None
      show ?thesis
        using None Some b assms(2) fields
        by (simp add: slotRecords_def addImage_new storedOrder_def slotMin_def)
    next
      case (Some a)
      with assms(1) fields have a: "ImageInfo.timing a = After" "category a = k"
        by (auto simp: wfGroup_def split: option.splits)
      have q: "map_of Q (category a) = None" "map_of Q (category b) = None"
        using a b assms(2) by simp_all
      have "groupLoop [b, a] \<lparr>standaloneImages = S, pairedGroups = Q\<rparr> =
            addImage a \<lparr>standaloneImages = S, pairedGroups = Q @ [(category a,
              \<lparr>before = Some b, after = None, order = ImageInfo.order b\<rparr>)]\<rparr>"
        using b a q by (simp add: addImage_new)
      also have "\<dots> = \<lparr>standaloneImages = S, pairedGroups = Q @ [(category a,
              \<lparr>before = Some b, after = Some a,
               order = min (ImageInfo.order b) (ImageInfo.order a)\<rparr>)]\<rparr>"
        using addImage_last[OF _ q(1), of S "\<lparr>before = Some b, after = None, order = ImageInfo.order b\<rparr>"] a
        by simp
      finally show ?thesis
        using Some \<open>bf = Some b\<close> fields a
        by (simp add: slotRecords_def storedOrder_def slotMin_def)
    qed
  qed
qed

lemma groupLoop_groups:
  "distinct (map fst (Q @ P)) \<Longrightarrow> list_all (\<lambda>kg. wfGroup (fst kg) (snd kg)) P \<Longrightarrow>
   groupLoop (concat (map (\<lambda>kg. slotRecords (snd kg)) P)) \<lparr>standaloneImages = S, pairedGroups = Q\<rparr> =
   \<lparr>standaloneImages = S, pairedGroups = Q @ map storedOrder P\<rparr>"
proof (induction P arbitrary: Q)
  case Nil
  show ?case by simp
next
  case (Cons kg P)
  obtain k g where kg: "kg = (k, g)" by (cases kg)
  from Cons.prems(1) have fresh: "map_of Q k = None"
    by (auto simp: kg map_of_eq_None_iff)
  from Cons.prems(2) have wf: "wfGroup k g" by (simp add: kg)
  have d: "distinct (map fst ((Q @ [storedOrder (k, g)]) @ P))"
    using Cons.prems(1) by (simp add: kg storedOrder_def)
  have "groupLoop (concat (map (\<lambda>kg. slotRecords (snd kg)) (kg # P))) \<lparr>standaloneImages = S, pairedGroups = Q\<rparr>
      = groupLoop (concat (map (\<lambda>kg. slotRecords (snd kg)) P))
          (groupLoop (slotRecords g) \<lparr>standaloneImages = S, pairedGroups = Q\<rparr>)"
    by (simp add: kg groupLoop_append)
  also have "\<dots> = groupLoop (concat (map (\<lambda>kg. slotRecords (snd kg)) P))
          \<lparr>standaloneImages = S, pairedGroups = Q @ [storedOrder (k, g)]\<rparr>"
    by (simp only: groupLoop_slotRecords[OF wf fresh])
  also have "\<dots> = \<lparr>standaloneImages = S, pairedGroups = (Q @ [storedOrder (k, g)]) @ map storedOrder P\<rparr>"
    using Cons.prems(2) by (intro Cons.IH[OF d]) simp
  finally show ?case by (simp add: kg)
qed

lemma regroup_flatten_wf:
  assumes "wfGrouping st"
  shows "groupImagesByCategory (flatten st) =
         \<lparr>standaloneImages = standaloneImages st, pairedGroups = map storedOrder (pairedGroups st)\<rparr>"
proof -
  from assms have s: "list_all (\<lambda>r. ImageInfo.timing r = Standalone) (standaloneImages st)"
    and d: "distinct (map fst ([] @ pairedGroups st))"
    and w: "list_all (\<lambda>kg. wfGroup (fst kg) (snd kg)) (pairedGroups st)"
    by (simp_all add: wfGrouping_def)
  show ?thesis
    unfolding groupImagesByCategory_def flatten_def groupLoop_append
    by (simp add: groupLoop_standalone[OF s] groupLoop_groups[OF d w])
qed

lemma tight_addImage:
  assumes wf: "wfGrouping st" and t: "tight st"
    and free: "slotOf (ImageInfo.timing img) (category img) st = None"
  shows "tight (addImage img st)"
proof (cases "ImageInfo.timing img = Standalone")
  case True
  with t show ?thesis by (simp add: tight_def addImage_def)
next
  case False
  let ?k = "category img"
  have upd: "tight (st\<lparr>pairedGroups := AList.update ?k v (pairedGroups st)\<rparr>)"
    if "Group.order v = slotMin v" for v
    using t that by (simp add: tight_def list_all_update)
  show ?thesis
  proof (cases "map_of (pairedGroups st) ?k")
    case None
    show ?thesis
      using False None unfolding addImage_def Let_def
      by (cases "ImageInfo.timing img") (simp_all add: upd slotMin_def)
  next
    case (Some g)
    have wg: "wfGroup ?k g"
      using wf Some by (auto simp: wfGrouping_def intro: wfGroup_lookup)
    have tg: "Group.order g = slotMin g"
      using t Some by (auto simp: tight_def list_all_iff dest!: map_of_SomeD)
    from free Some have fr: "slot (ImageInfo.timing img) g = None" by (simp add: slotOf_def)
    have "Group.order ((if ImageInfo.timing img = Before then g\<lparr>before := Some img\<rparr> else g\<lparr>after := Some img\<rparr>)
              \<lparr>Group.order := min (Group.order g) (ImageInfo.order img)\<rparr>)
        = slotMin ((if ImageInfo.timing img = Before then g\<lparr>before := Some img\<rparr> else g\<lparr>after := Some img\<rparr>)
              \<lparr>Group.order := min (Group.order g) (ImageInfo.order img)\<rparr>)"
      using False wg tg fr
      by (cases "ImageInfo.timing img")
         (auto simp: slotMin_def slot_def wfGroup_def min.commute split: option.splits)
    from upd[OF this] show ?thesis
      using False Some by (cases "ImageInfo.timing img = Before") (simp_all add: addImage_def Let_def)
  qed
qed

lemma groupImagesByCategory_snoc:
  "groupImagesByCategory (xs @ [x]) = addImage x (groupImagesByCategory xs)"
  by (simp add: groupImagesByCategory_def groupLoop_append)

lemma tight_group: "noRepeatedSlot xs \<Longrightarrow> tight (groupImagesByCategory xs)"
proof (induction xs rule: rev_induct)
  case Nil
  show ?case by (simp add: tight_def groupImagesByCategory_def)
next
  case (snoc x xs)
  from snoc.prems have nr: "noRepeatedSlot xs"
    by (simp add: noRepeatedSlot_def)
  have free: "slotOf (ImageInfo.timing x) (category x) (groupImagesByCategory xs) = None"
  proof (cases "ImageInfo.timing x = Standalone")
    case True
    then show ?thesis by (simp add: slotOf_def slot_def split: option.splits)
  next
    case False
    with snoc.prems have notin: "(category x, ImageInfo.timing x) \<notin>
        set (map (\<lambda>r. (category r, ImageInfo.timing r)) (filter (\<lambda>r. ImageInfo.timing r \<noteq> Standalone) xs))"
      by (simp add: noRepeatedSlot_def)
    have "filter (\<lambda>r. category r = category x \<and> ImageInfo.timing r = ImageInfo.timing x) xs = []"
    proof (rule ccontr)
      assume "filter (\<lambda>r. category r = category x \<and> ImageInfo.timing r = ImageInfo.timing x) xs \<noteq> []"
      then obtain r where r: "r \<in> set xs" "category r = category x" "ImageInfo.timing r = ImageInfo.timing x"
        by (auto simp: filter_empty_conv)
      with False have "r \<in> set (filter (\<lambda>r. ImageInfo.timing r \<noteq> Standalone) xs)" by simp
      then have "(category r, ImageInfo.timing r) \<in>
          set (map (\<lambda>r. (category r, ImageInfo.timing r)) (filter (\<lambda>r. ImageInfo.timing r \<noteq> Standalone) xs))"
        by (simp only: set_map image_eqI[where f = "\<lambda>r. (category r, ImageInfo.timing r)"])
      with r notin show False by simp
    qed
    with False show ?thesis by (simp add: slotOf_group)
  qed
  show ?case
    unfolding groupImagesByCategory_snoc
    by (rule tight_addImage[OF wfGrouping_group snoc.IH[OF nr] free])
qed

lemma storedOrder_tight:
  "tight st \<Longrightarrow> map storedOrder (pairedGroups st) = pairedGroups st"
  by (rule map_idI) (auto simp: tight_def list_all_iff storedOrder_def)

text \<open>
  Claim C3, as stated: regrouping the flattened result gives the same standalone
  sequence and the same paired groups, with the same slots and the same group orders.
  The group orders are not preserved: of two \<^verbatim>\<open>before\<close> records of one category, the
  first (order 1) is overwritten by the second (order 2); the group keeps order 1, but
  the flattened sequence only has the surviving record, so the regrouped order is 2.
\<close>

theorem regroup_flatten_order_counterexample:
  "map (\<lambda>kg. Group.order (snd kg)) (pairedGroups (groupImagesByCategory [
       \<lparr>alt = ''x'', src = ''u1'', category = ''x'', timing = Before, order = 1\<rparr>, 
       \<lparr>alt = ''x'', src = ''u2'', category = ''x'', timing = Before, order = 2\<rparr>])) = [1] \<and>
   map (\<lambda>kg. Group.order (snd kg)) (pairedGroups (groupImagesByCategory (flatten
     (groupImagesByCategory [
       \<lparr>alt = ''x'', src = ''u1'', category = ''x'', timing = Before, order = 1\<rparr>, 
       \<lparr>alt = ''x'', src = ''u2'', category = ''x'', timing = Before, order = 2\<rparr>])))) = [2]"
  by (simp add: groupImagesByCategory_def addImage_def Let_def flatten_def slotRecords_def)

text \<open>
  Claim C3, amended. For every sequence, regrouping the flattened result gives the same
  standalone sequence and the same paired groups in the same map order with the same
  \<^verbatim>\<open>before\<close>/\<^verbatim>\<open>after\<close> contents; the order of each regrouped group is the least order
  among the records the group still stores; and the whole result is the same, group
  orders included, whenever no two input records share a category and a non-standalone
  timing.
\<close>

theorem regroup_flatten:
  "standaloneImages (groupImagesByCategory (flatten (groupImagesByCategory xs)))
     = standaloneImages (groupImagesByCategory xs) \<and>
   map (\<lambda>kg. (fst kg, before (snd kg), after (snd kg)))
       (pairedGroups (groupImagesByCategory (flatten (groupImagesByCategory xs))))
     = map (\<lambda>kg. (fst kg, before (snd kg), after (snd kg)))
       (pairedGroups (groupImagesByCategory xs)) \<and>
   map (\<lambda>kg. Group.order (snd kg))
       (pairedGroups (groupImagesByCategory (flatten (groupImagesByCategory xs))))
     = map (\<lambda>kg. slotMin (snd kg)) (pairedGroups (groupImagesByCategory xs)) \<and>
   (noRepeatedSlot xs \<longrightarrow>
      groupImagesByCategory (flatten (groupImagesByCategory xs)) = groupImagesByCategory xs)"
proof -
  have eq: "groupImagesByCategory (flatten (groupImagesByCategory xs)) =
      \<lparr>standaloneImages = standaloneImages (groupImagesByCategory xs),
       pairedGroups = map storedOrder (pairedGroups (groupImagesByCategory xs))\<rparr>"
    by (rule regroup_flatten_wf[OF wfGrouping_group])
  have "noRepeatedSlot xs \<Longrightarrow>
      groupImagesByCategory (flatten (groupImagesByCategory xs)) = groupImagesByCategory xs"
    unfolding eq by (simp add: storedOrder_tight[OF tight_group])
  then show ?thesis
    unfolding eq by (simp add: storedOrder_def comp_def)
qed

theorem regroup_flatten_witness:
  "noRepeatedSlot [
       \<lparr>alt = ''y'', src = ''u4'', category = ''y'', timing = Standalone, order = 0\<rparr>, 
       \<lparr>alt = ''x'', src = ''u2'', category = ''x'', timing = Before, order = 2\<rparr>, 
       \<lparr>alt = ''x'', src = ''u3'', category = ''x'', timing = After, order = 3\<rparr>] \<and>
   groupImagesByCategory (flatten (groupImagesByCategory [
       \<lparr>alt = ''y'', src = ''u4'', category = ''y'', timing = Standalone, order = 0\<rparr>, 
       \<lparr>alt = ''x'', src = ''u2'', category = ''x'', timing = Before, order = 2\<rparr>, 
       \<lparr>alt = ''x'', src = ''u3'', category = ''x'', timing = After, order = 3\<rparr>]))
     = groupImagesByCategory [
       \<lparr>alt = ''y'', src = ''u4'', category = ''y'', timing = Standalone, order = 0\<rparr>, 
       \<lparr>alt = ''x'', src = ''u2'', category = ''x'', timing = Before, order = 2\<rparr>, 
       \<lparr>alt = ''x'', src = ''u3'', category = ''x'', timing = After, order = 3\<rparr>]"
proof -
  have h: "noRepeatedSlot [
       \<lparr>alt = ''y'', src = ''u4'', category = ''y'', timing = Standalone, order = 0\<rparr>, 
       \<lparr>alt = ''x'', src = ''u2'', category = ''x'', timing = Before, order = 2\<rparr>, 
       \<lparr>alt = ''x'', src = ''u3'', category = ''x'', timing = After, order = 3\<rparr>]"
    by (simp add: noRepeatedSlot_def)
  from regroup_flatten[of "[
       \<lparr>alt = ''y'', src = ''u4'', category = ''y'', timing = Standalone, order = 0\<rparr>, 
       \<lparr>alt = ''x'', src = ''u2'', category = ''x'', timing = Before, order = 2\<rparr>, 
       \<lparr>alt = ''x'', src = ''u3'', category = ''x'', timing = After, order = 3\<rparr>]"] h show ?thesis
    by blast
qed

section \<open>Properties of the filename parser\<close>

lemma takeWhile_run:
  "list_all P xs \<Longrightarrow> (ys = [] \<or> \<not> P (hd ys)) \<Longrightarrow> takeWhile P (xs @ ys) = xs"
  by (induction xs) (auto simp: takeWhile_eq_Nil_iff)

lemma dropWhile_run:
  "list_all P xs \<Longrightarrow> (ys = [] \<or> \<not> P (hd ys)) \<Longrightarrow> dropWhile P (xs @ ys) = ys"
  by (induction xs) (auto simp: dropWhile_eq_self_iff)

lemma toLower_cases: "toLower c = c \<or> (isUpper c \<and> isLower (toLower c))"
  by (simp add: toLower_def isUpper_def isLower_def)

lemma isLower_toLower: "isLower (toLower c) \<Longrightarrow> isLetter c"
  using toLower_cases[of c] by (auto simp: isLetter_def)

lemma isLetter_other: "isLetter c \<Longrightarrow> \<not> isSpace c \<and> \<not> isDigit c \<and> c \<noteq> CHR ''_''"
  by (auto simp: isLetter_def isUpper_def isLower_def isSpace_def isDigit_def)

lemma timingWord_letters:
  assumes "toLowerCase w = ''before'' \<or> toLowerCase w = ''after''"
  shows "list_all isLetter w"
proof -
  have "list_all isLower (map toLower w)"
    using assms by (auto simp: toLowerCase_def isLower_def)
  then show ?thesis
    by (simp add: list_all_iff isLower_toLower)
qed

lemma removeTimingSuffix_no_space:
  "list_all (\<lambda>c. \<not> isSpace c) s \<Longrightarrow> removeTimingSuffix word s = None"
  by (induction s) (simp_all add: timingSuffix_def)

lemma trim_id: "s = [] \<or> (\<not> isSpace (hd s) \<and> \<not> isSpace (last s)) \<Longrightarrow> trim s = s"
proof (cases s)
  case Nil
  then show ?thesis by (simp add: trim_def)
next
  case (Cons c cs)
  assume "s = [] \<or> (\<not> isSpace (hd s) \<and> \<not> isSpace (last s))"
  with Cons have h: "\<not> isSpace c" and l: "\<not> isSpace (last s)" by simp_all
  from h Cons have 1: "dropWhile isSpace s = s" by simp
  have "hd (rev s) = last s" by (rule hd_rev)
  with l have 2: "dropWhile isSpace (rev s) = rev s"
    unfolding dropWhile_eq_self_iff by (simp only: not_False_eq_True simp_thms)
  show ?thesis by (simp add: trim_def 1 2)
qed

text \<open>
  Claim C2, as stated: an input that consists solely of a timing word has an empty
  \<^verbatim>\<open>normalizedName\<close>. The pattern \<^verbatim>\<open>\s+before\<close> wants white space ahead of the
  word, so the bare word is no timing suffix: it is kept as the name.
\<close>

theorem parseFilename_bare_timing_word_counterexample:
  "formattedAlt (parseFilename ''before'') = ''before'' \<and>
   formattedAlt (parseFilename ''after'') = ''after'' \<and>
   Parsed.timing (parseFilename ''before'') = Standalone"
  by code_simp

lemma parseFilename_bare:
  assumes "toLowerCase w = ''before'' \<or> toLowerCase w = ''after''"
  shows "parseFilename w = \<lparr>Parsed.order = 0, Parsed.timing = Standalone, formattedAlt = w\<rparr>"
proof -
  have letters: "list_all isLetter w" by (rule timingWord_letters[OF assms])
  from assms have ne: "w \<noteq> []" by (auto simp: toLowerCase_def)
  have nosp: "list_all (\<lambda>c. \<not> isSpace c) w"
    using letters by (simp add: list_all_iff isLetter_other)
  have "\<not> isDigit (hd w)"
    using letters ne by (cases w) (simp_all add: isLetter_other)
  then have pm: "prefixMatch w = None"
    using ne by (cases w) (simp_all add: prefixMatch_def)
  have norm: "map (\<lambda>c. if c = CHR ''_'' then CHR '' '' else c) w = w"
    using letters by (intro map_idI) (auto simp: list_all_iff dest: isLetter_other)
  have "\<not> isSpace (hd w) \<and> \<not> isSpace (last w)"
    using nosp ne by (simp add: list_all_iff)
  then have tr: "trim w = w" by (simp add: trim_id)
  show ?thesis
    by (simp add: parseFilename_def pm norm removeTimingSuffix_no_space[OF nosp] tr)
qed


lemma timingSuffix_spaces_word:
  assumes "list_all isSpace sp" and "list_all isLetter w" and "w \<noteq> []" and "length w \<le> length word"
  shows "timingSuffix word (sp @ w) \<longleftrightarrow> sp \<noteq> [] \<and> toLowerCase w = word"
proof -
  have "\<not> isSpace (hd w)"
    using assms(2,3) by (cases w) (simp_all add: isLetter_other)
  then have d: "dropWhile isSpace (sp @ w) = w"
    using assms(1) by (intro dropWhile_run) simp_all
  have ne: "w \<noteq> sp @ w \<longleftrightarrow> sp \<noteq> []" by auto
  show ?thesis
    unfolding timingSuffix_def Let_def d using assms(4) ne by auto
qed

lemma removeTimingSuffix_spaces_other:
  assumes "list_all isSpace sp" and "list_all isLetter w" and "w \<noteq> []"
    and "length w \<le> length word" and "toLowerCase w \<noteq> word"
  shows "removeTimingSuffix word (sp @ w) = None"
  using assms(1)
proof (induction sp)
  case Nil
  have "list_all (\<lambda>c. \<not> isSpace c) w"
    using assms(2) by (simp add: list_all_iff isLetter_other)
  then show ?case by (simp add: removeTimingSuffix_no_space)
next
  case (Cons c sp)
  have "\<not> timingSuffix word ((c # sp) @ w)"
    using timingSuffix_spaces_word[OF Cons.prems assms(2,3,4)] assms(5) by simp
  with Cons show ?case by simp
qed

lemma removeTimingSuffix_spaces_word:
  assumes "list_all isSpace sp" and "sp \<noteq> []" and "list_all isLetter w" and "w \<noteq> []"
    and "toLowerCase w = word"
  shows "removeTimingSuffix word (sp @ w) = Some []"
proof -
  have "length w \<le> length word" using assms(5) by (auto simp: toLowerCase_def)
  from timingSuffix_spaces_word[OF assms(1,3,4) this] assms(2,5)
  have "timingSuffix word (sp @ w)" by simp
  then show ?thesis using assms(2) by (cases sp) simp_all
qed

lemma parseFilename_separator_word:
  assumes ws: "ws \<noteq> []" "list_all (\<lambda>c. isSpace c \<or> c = CHR ''_'') ws"
    and w: "toLowerCase w = ''before'' \<or> toLowerCase w = ''after''"
  shows "parseFilename (ws @ w) =
     \<lparr>Parsed.order = 0,
      Parsed.timing = (if toLowerCase w = ''before'' then Before else After),
      formattedAlt = []\<rparr>"
proof -
  let ?u = "\<lambda>c. if c = CHR ''_'' then CHR '' '' else c"
  have letters: "list_all isLetter w" by (rule timingWord_letters[OF w])
  from w have ne: "w \<noteq> []" by (auto simp: toLowerCase_def)
  have "\<not> isDigit (hd (ws @ w))"
    using ws by (cases ws) (auto simp: isSpace_def isDigit_def)
  then have pm: "prefixMatch (ws @ w) = None"
    using ws(1) by (cases ws) (simp_all add: prefixMatch_def)
  have nw: "map ?u w = w"
    using letters by (intro map_idI) (auto simp: list_all_iff dest: isLetter_other)
  have sp: "list_all isSpace (map ?u ws)" "map ?u ws \<noteq> []"
    using ws by (auto simp: list_all_iff isSpace_def)
  have norm: "map ?u (ws @ w) = map ?u ws @ w" by (simp add: nw)
  show ?thesis
  proof (cases "toLowerCase w = ''before''")
    case True
    have "removeTimingSuffix ''before'' (map ?u ws @ w) = Some []"
      by (rule removeTimingSuffix_spaces_word[OF sp letters ne True])
    then show ?thesis
      using True by (simp add: parseFilename_def pm nw trim_def)
  next
    case False
    with w have a: "toLowerCase w = ''after''" by simp
    then have "length w \<le> length ''before''" by (auto simp: toLowerCase_def)
    from removeTimingSuffix_spaces_other[OF sp(1) letters ne this False]
    have b: "removeTimingSuffix ''before'' (map ?u ws @ w) = None" .
    have "removeTimingSuffix ''after'' (map ?u ws @ w) = Some []"
      by (rule removeTimingSuffix_spaces_word[OF sp letters ne a])
    then show ?thesis
      using False b by (simp add: parseFilename_def pm nw trim_def)
  qed
qed

text \<open>
  Claim C2, amended. For every input that consists solely of a timing word (\<^verbatim>\<open>before\<close>
  or \<^verbatim>\<open>after\<close>, in any letter case), the parser returns the word itself as the name,
  with timing standalone and order 0. The name is empty when the timing word comes
  after nothing but white space and underscores, one at least (as in \<^verbatim>\<open>_before\<close>);
  the timing is then the one the word names.
\<close>

theorem parseFilename_timing_word:
  "(toLowerCase w = ''before'' \<or> toLowerCase w = ''after'' \<longrightarrow>
      parseFilename w = \<lparr>Parsed.order = 0, Parsed.timing = Standalone, formattedAlt = w\<rparr>) \<and>
   (ws \<noteq> [] \<and> list_all (\<lambda>c. isSpace c \<or> c = CHR ''_'') ws \<and>
    (toLowerCase w = ''before'' \<or> toLowerCase w = ''after'') \<longrightarrow>
      parseFilename (ws @ w) =
        \<lparr>Parsed.order = 0,
         Parsed.timing = (if toLowerCase w = ''before'' then Before else After),
         formattedAlt = []\<rparr>)"
  using parseFilename_bare[of w] parseFilename_separator_word[of ws w] by blast

theorem parseFilename_timing_word_witness:
  "toLowerCase ''After'' = ''after'' \<and>
   list_all (\<lambda>c. isSpace c \<or> c = CHR ''_'') ''_'' \<and>
   parseFilename ''After'' = \<lparr>Parsed.order = 0, Parsed.timing = Standalone, formattedAlt = ''After''\<rparr> \<and>
   parseFilename ''_After'' = \<lparr>Parsed.order = 0, Parsed.timing = After, formattedAlt = []\<rparr>"
proof -
  have h1: "toLowerCase ''After'' = ''after''" by code_simp
  have h2: "list_all (\<lambda>c. isSpace c \<or> c = CHR ''_'') ''_''" by simp
  from parseFilename_timing_word[of "''After''" "''_''"] h1 h2 show ?thesis
    by simp
qed

section \<open>Properties of the title parser\<close>

lemma splitAcc_nonempty: "splitAcc acc s \<noteq> []"
  by (induction acc s rule: splitAcc.induct) simp_all

lemma titleWords_nonempty: "titleWords title \<noteq> []"
  by (simp add: titleWords_def Let_def splitWs_def splitAcc_nonempty split: option.splits)

lemma ticketSplit_nonempty: "fst (ticketSplit w0 ws) \<noteq> []"
  by (simp add: ticketSplit_def Let_def)

lemma formatWords_nonempty: "words \<noteq> [] \<Longrightarrow> formatWords words \<noteq> []"
proof -
  assume "words \<noteq> []"
  then obtain w0 ws where w: "words = w0 # ws" by (cases words) auto
  obtain ticketId remainingWords where t: "ticketSplit w0 ws = (ticketId, remainingWords)"
    by (cases "ticketSplit w0 ws")
  with ticketSplit_nonempty[of w0 ws] have "ticketId \<noteq> []" by simp
  then show ?thesis
    by (simp add: formatWords_def w t split: prod.splits)
qed

lemma parsePRTitle_nonempty: "parsePRTitle title \<noteq> []"
  by (simp add: parsePRTitle_def formatWords_nonempty titleWords_nonempty)

lemma trim_spaces: "list_all isSpace s \<Longrightarrow> trim s = []"
proof -
  assume "list_all isSpace s"
  then have d: "dropWhile isSpace s = []" by (induction s) simp_all
  show ?thesis unfolding trim_def d by simp
qed

text \<open>
  Claim C1 says that an empty or white-space-only input gives the empty string. The
  source means to (\<^verbatim>\<open>if (words.length === 0) return ""\<close>), but \<^verbatim>\<open>"".split(/\s+/)\<close> is
  \<^verbatim>\<open>[""]\<close>, never the empty array: the one empty word becomes the ticket identifier
  \<^verbatim>\<open>[]\<close>. What the code does: on every input that is empty or white space only, the
  result is the two-character string \<^verbatim>\<open>[]\<close>; and on no input at all is the result the
  empty string.
\<close>

theorem parsePRTitle_blank_input:
  "(list_all isSpace title \<longrightarrow> parsePRTitle title = ''[]'') \<and> parsePRTitle title \<noteq> []"
proof (intro conjI impI)
  assume "list_all isSpace title"
  then have "trim title = []" by (rule trim_spaces)
  then show "parsePRTitle title = ''[]''"
    by (simp add: parsePRTitle_def titleWords_def slashSlugMatch_def hyphenSlugMatch_def
        splitWs_def formatWords_def ticketSplit_def toLowerCase_def toUpperCase_def)
next
  show "parsePRTitle title \<noteq> []" by (rule parsePRTitle_nonempty)
qed

theorem parsePRTitle_blank_input_witness:
  "list_all isSpace [] \<and> parsePRTitle [] = ''[]'' \<and>
   list_all isSpace ''   '' \<and> parsePRTitle ''   '' = ''[]''"
proof -
  have h: "list_all isSpace []" "list_all isSpace ''   ''" by (simp_all add: isSpace_def)
  from parsePRTitle_blank_input[of "[]"] parsePRTitle_blank_input[of "''   ''"] h
  show ?thesis by simp
qed

lemma partLoop_last:
  assumes "isPartAt ws i" and "\<forall>j. i < j \<longrightarrow> \<not> isPartAt ws j" and "i < n"
  shows "partLoop ws n = (''[PART-'' @ ws ! (i + 1) @ '']'', take i ws @ drop (i + 2) ws)"
  using assms(3)
proof (induction n)
  case 0
  then show ?case by simp
next
  case (Suc n)
  show ?case
  proof (cases "i = n")
    case True
    with assms(1) show ?thesis by simp
  next
    case False
    with Suc.prems have "i < n" by simp
    with assms(2) have "\<not> isPartAt ws n" by simp
    with Suc.IH[OF \<open>i < n\<close>] show ?thesis by simp
  qed
qed

lemma formatWords_part:
  assumes "ticketSplit w0 ws = (ticketId, remainingWords)"
    and "isPartAt remainingWords i" and "\<forall>j. i < j \<longrightarrow> \<not> isPartAt remainingWords j"
  shows "formatWords (w0 # ws) =
      ticketId @ '' [PART-'' @ remainingWords ! (i + 1) @ '']'' @
       (if take i remainingWords @ drop (i + 2) remainingWords = [] then []
        else '' '' @ capitalize (joinWords (take i remainingWords @ drop (i + 2) remainingWords)))"
proof -
  from assms(2) have len: "i + 1 < length remainingWords" by (simp add: isPartAt_def)
  then have ne: "remainingWords \<noteq> []" by auto
  from len have "i < length remainingWords - 1" by simp
  from partLoop_last[OF assms(2,3) this]
  show ?thesis
    using ne by (simp add: formatWords_def assms(1))
qed

text \<open>
  Claim C8. When the words left after the ticket identifier hold the pattern
  \<^verbatim>\<open>part\<close> (in any letter case) followed by an all-digit word, at index \<open>i\<close> and at
  no later index, the part suffix is taken from the words at \<open>i\<close> and \<open>i + 1\<close>, exactly
  these two words are removed, and the words before and after them are joined. In
  particular \<^verbatim>\<open>"Mb 80 part 1 of the feature part 2"\<close> becomes
  \<^verbatim>\<open>"[MB-80] [PART-2] Part 1 of the feature"\<close>.
\<close>

theorem parsePRTitle_last_part: 
  "(titleWords title = w0 # ws \<and> ticketSplit w0 ws = (ticketId, remainingWords) \<and>
    isPartAt remainingWords i \<and> (\<forall>j. i < j \<longrightarrow> \<not> isPartAt remainingWords j) \<longrightarrow>
    parsePRTitle title =
      ticketId @ '' [PART-'' @ remainingWords ! (i + 1) @ '']'' @
       (if take i remainingWords @ drop (i + 2) remainingWords = [] then []
        else '' '' @ capitalize (joinWords (take i remainingWords @ drop (i + 2) remainingWords)))) \<and>
   parsePRTitle ''Mb 80 part 1 of the feature part 2'' = ''[MB-80] [PART-2] Part 1 of the feature''"
proof (intro conjI impI)
  assume a: "titleWords title = w0 # ws \<and> ticketSplit w0 ws = (ticketId, remainingWords) \<and>
    isPartAt remainingWords i \<and> (\<forall>j. i < j \<longrightarrow> \<not> isPartAt remainingWords j)"
  then show "parsePRTitle title =
      ticketId @ '' [PART-'' @ remainingWords ! (i + 1) @ '']'' @
       (if take i remainingWords @ drop (i + 2) remainingWords = [] then []
        else '' '' @ capitalize (joinWords (take i remainingWords @ drop (i + 2) remainingWords)))"
    unfolding parsePRTitle_def using formatWords_part[of w0 ws ticketId remainingWords i] by simp
next
  show "parsePRTitle ''Mb 80 part 1 of the feature part 2'' = ''[MB-80] [PART-2] Part 1 of the feature''"
    by code_simp
qed

theorem parsePRTitle_last_part_witness:
  "titleWords ''Mb 80 part 1 of the feature part 2'' = ''Mb'' # [''80'', ''part'', ''1'', ''of'', ''the'', ''feature'', ''part'', ''2''] \<and>
   ticketSplit ''Mb'' [''80'', ''part'', ''1'', ''of'', ''the'', ''feature'', ''part'', ''2'']
     = (''[MB-80]'', [''part'', ''1'', ''of'', ''the'', ''feature'', ''part'', ''2'']) \<and>
   isPartAt [''part'', ''1'', ''of'', ''the'', ''feature'', ''part'', ''2''] 5 \<and>
   isPartAt [''part'', ''1'', ''of'', ''the'', ''feature'', ''part'', ''2''] 0 \<and>
   parsePRTitle ''Mb 80 part 1 of the feature part 2'' = ''[MB-80] [PART-2] Part 1 of the feature''"
proof -
  have w: "titleWords ''Mb 80 part 1 of the feature part 2'' = ''Mb'' # [''80'', ''part'', ''1'', ''of'', ''the'', ''feature'', ''part'', ''2'']"
    by code_simp
  have t: "ticketSplit ''Mb'' [''80'', ''part'', ''1'', ''of'', ''the'', ''feature'', ''part'', ''2'']
     = (''[MB-80]'', [''part'', ''1'', ''of'', ''the'', ''feature'', ''part'', ''2''])"
    by code_simp
  have p: "isPartAt [''part'', ''1'', ''of'', ''the'', ''feature'', ''part'', ''2''] 5"
    by code_simp
  have p0: "isPartAt [''part'', ''1'', ''of'', ''the'', ''feature'', ''part'', ''2''] 0"
    by code_simp
  have l: "\<forall>j. 5 < j \<longrightarrow> \<not> isPartAt [''part'', ''1'', ''of'', ''the'', ''feature'', ''part'', ''2''] j"
    by (simp add: isPartAt_def)
  from parsePRTitle_last_part[of "''Mb 80 part 1 of the feature part 2''" "''Mb''" _ "''[MB-80]''" _ 5] w t p p0 l
  show ?thesis by simp
qed


lemma slashSlugMatch_shape:
  assumes l: "letters \<noteq> []" "list_all isLetter letters"
    and d: "digits \<noteq> []" "list_all isDigit digits"
    and s: "seg = [] \<or> (\<exists>s'. seg = CHR ''-'' # s' \<and> s' \<noteq> [] \<and> CHR ''/'' \<notin> set s')"
    and r: "rest \<noteq> []" "\<not> list_ex isLineTerminator rest"
  shows "slashSlugMatch (letters @ ''-'' @ digits @ seg @ ''/'' @ rest) = Some (letters, digits, rest)"
proof -
  let ?tail = "seg @ ''/'' @ rest"
  have nl: "\<not> isLetter CHR ''-''" by (simp add: isLetter_def isUpper_def isLower_def)
  have tl: "takeWhile isLetter (letters @ ''-'' @ digits @ ?tail) = letters"
    using l(2) nl by (intro takeWhile_run) simp_all
  have dl: "dropWhile isLetter (letters @ ''-'' @ digits @ ?tail) = ''-'' @ digits @ ?tail"
    using l(2) nl by (intro dropWhile_run) simp_all
  have hd_tail: "\<not> isDigit (hd ?tail)"
    using s by (auto simp: isDigit_def)
  have td: "takeWhile isDigit (digits @ ?tail) = digits"
    using d(2) hd_tail by (intro takeWhile_run) simp_all
  have dd: "dropWhile isDigit (digits @ ?tail) = ?tail"
    using d(2) hd_tail by (intro dropWhile_run) simp_all
  have sr: "slugRest rest = Some rest"
    using r by (simp add: slugRest_def)
  have dg: "(case dropWhile isLetter (letters @ ''-'' @ digits @ ?tail) of
               [] \<Rightarrow> []
             | c # cs \<Rightarrow> if c = CHR ''-'' then takeWhile isDigit cs else []) = digits"
    unfolding dl using td by simp
  have ad: "dropWhile isDigit (drop 1 (dropWhile isLetter (letters @ ''-'' @ digits @ ?tail))) = ?tail"
    unfolding dl using dd by simp
  have step: "slashSlugMatch (letters @ ''-'' @ digits @ ?tail) =
      (case ?tail of
         [] \<Rightarrow> None
       | c # cs \<Rightarrow>
           if c = CHR ''/'' then map_option (\<lambda>rest. (letters, digits, rest)) (slugRest cs)
           else if c = CHR ''-'' then
             (case dropWhile (\<lambda>x. x \<noteq> CHR ''/'') cs of
                [] \<Rightarrow> None
              | slash # rest \<Rightarrow>
                  if takeWhile (\<lambda>x. x \<noteq> CHR ''/'') cs = [] then None
                  else map_option (\<lambda>rest. (letters, digits, rest)) (slugRest rest))
           else None)"
    unfolding slashSlugMatch_def Let_def tl dg ad using l(1) d(1) by simp
  from s show ?thesis
  proof
    assume "seg = []"
    then show ?thesis
      using sr unfolding step by simp
  next
    assume "\<exists>s'. seg = CHR ''-'' # s' \<and> s' \<noteq> [] \<and> CHR ''/'' \<notin> set s'"
    then obtain s' where seg: "seg = CHR ''-'' # s'" and s': "s' \<noteq> []" "CHR ''/'' \<notin> set s'"
      by blast
    have ts: "takeWhile (\<lambda>x. x \<noteq> CHR ''/'') (s' @ ''/'' @ rest) = s'"
      using s'(2) by (intro takeWhile_run) (simp_all add: list_all_iff, metis)
    have ds: "dropWhile (\<lambda>x. x \<noteq> CHR ''/'') (s' @ ''/'' @ rest) = ''/'' @ rest"
      using s'(2) by (intro dropWhile_run) (simp_all add: list_all_iff, metis)
    show ?thesis
      using sr s'(1) ts ds by (subst step) (simp add: seg)
  qed
qed

lemma splitAcc_leading_spaces:
  "filter (\<lambda>w. w \<noteq> []) (splitAcc [] (dropWhile isSpace s)) =
   filter (\<lambda>w. w \<noteq> []) (splitAcc [] s)"
  by (cases s) simp_all

lemma tokensAcc_leading_seps: "tokensAcc [] (dropWhile isSep s) = tokensAcc [] s"
  by (induction s) simp_all

lemma splitAcc_replaceSepRuns:
  "filter (\<lambda>w. w \<noteq> []) (splitAcc acc (replaceSepRuns s)) = tokensAcc acc s"
proof (induction s arbitrary: acc rule: replaceSepRuns.induct)
  case 1
  show ?case by simp
next
  case (2 c cs)
  show ?case
  proof (cases "isSep c")
    case True
    have sp: "isSpace CHR '' ''" by (simp add: isSpace_def)
    have "filter (\<lambda>w. w \<noteq> []) (splitAcc acc (replaceSepRuns (c # cs))) =
        (if acc = [] then [] else [acc]) @
        filter (\<lambda>w. w \<noteq> [])
          (splitAcc [] (dropWhile isSpace (replaceSepRuns (dropWhile isSep cs))))"
      using True sp by simp
    also have "\<dots> = (if acc = [] then [] else [acc]) @
        filter (\<lambda>w. w \<noteq> []) (splitAcc [] (replaceSepRuns (dropWhile isSep cs)))"
      by (simp only: splitAcc_leading_spaces)
    also have "\<dots> = (if acc = [] then [] else [acc]) @ tokensAcc [] (dropWhile isSep cs)"
      by (simp only: "2.IH"(1)[OF True])
    also have "\<dots> = (if acc = [] then [] else [acc]) @ tokensAcc [] cs"
      by (simp only: tokensAcc_leading_seps)
    also have "\<dots> = tokensAcc acc (c # cs)"
      using True by simp
    finally show ?thesis .
  next
    case False
    show ?thesis
    proof (cases "isSpace c")
      case True
      have "filter (\<lambda>w. w \<noteq> []) (splitAcc acc (replaceSepRuns (c # cs))) =
          (if acc = [] then [] else [acc]) @
          filter (\<lambda>w. w \<noteq> []) (splitAcc [] (dropWhile isSpace (replaceSepRuns cs)))"
        using True False by simp
      also have "\<dots> = (if acc = [] then [] else [acc]) @
          filter (\<lambda>w. w \<noteq> []) (splitAcc [] (replaceSepRuns cs))"
        by (simp only: splitAcc_leading_spaces)
      also have "\<dots> = (if acc = [] then [] else [acc]) @ tokensAcc [] cs"
        by (simp only: "2.IH"(2)[OF False])
      also have "\<dots> = tokensAcc acc (c # cs)"
        using True by simp
      finally show ?thesis .
    next
      case nsp: False
      show ?thesis
        using False nsp "2.IH"(2)[OF False, of "acc @ [c]"] by simp
    qed
  qed
qed

lemma slugWords_featureTokens: "slugWords rest = featureTokens rest"
  by (simp add: slugWords_def splitWs_def featureTokens_def splitAcc_replaceSepRuns)

text \<open>
  Claim C9, as stated, for every non-empty rest. The pattern ends in \<^verbatim>\<open>(.+)$\<close>, and
  \<^verbatim>\<open>.\<close> matches no line terminator: a trimmed input of the slash-slug shape whose rest
  holds a line feed matches neither slug pattern and is split at white space instead.
  For \<^verbatim>\<open>"MB-95/fix\nbug"\<close> the claim gives the words \<^verbatim>\<open>MB\<close>, \<^verbatim>\<open>95\<close>, \<^verbatim>\<open>fix\<close>, \<^verbatim>\<open>bug\<close>;
  the code gives \<^verbatim>\<open>MB-95/fix\<close>, \<^verbatim>\<open>bug\<close> and the title \<^verbatim>\<open>[MB-95/FIX-BUG]\<close>.
\<close>

theorem parsePRTitle_slash_slug_newline_counterexample:
  "trim (''MB-95/fix'' @ [CHR 0x0A] @ ''bug'') = ''MB-95/fix'' @ [CHR 0x0A] @ ''bug'' \<and>
   titleWords (''MB-95/fix'' @ [CHR 0x0A] @ ''bug'') = [''MB-95/fix'', ''bug''] \<and>
   ''MB'' # ''95'' # slugWords (''fix'' @ [CHR 0x0A] @ ''bug'') = [''MB'', ''95'', ''fix'', ''bug''] \<and>
   parsePRTitle (''MB-95/fix'' @ [CHR 0x0A] @ ''bug'') = ''[MB-95/FIX-BUG]''"
  by code_simp

text \<open>
  A segment that is the hyphen alone is no segment of the slash-slug pattern
  (\<^verbatim>\<open>[^/]+\<close> wants a character): such an input is a hyphen slug, whose rest starts
  with the slash.
\<close>

lemma parsePRTitle_empty_segment:
  "slashSlugMatch ''MB-95-/rest'' = None \<and>
   titleWords ''MB-95-/rest'' = [''MB'', ''95'', ''/rest''] \<and>
   parsePRTitle ''MB-95-/rest'' = ''[MB-95] /rest''"
  by code_simp

text \<open>
  Claim C9, amended. The shape is: one or more ASCII letters, a hyphen, one or more
  ASCII digits, then optionally a segment (a hyphen and one or more characters other
  than the slash), then a slash, then a non-empty rest without a line terminator. The
  line terminators are line feed, carriage return, U+2028 and U+2029; this theorem is
  about ASCII text, where they are the first two. For every input whose trimmed form
  has this shape, the words are the letters, the digits, and the rest exploded: runs
  of \<^verbatim>\<open>_\<close> and \<^verbatim>\<open>-\<close> replaced by a space, split at white space, empty pieces dropped
  (\<^const>\<open>slugWords\<close>), which are the maximal non-empty runs of characters other than
  \<^verbatim>\<open>_\<close>, \<^verbatim>\<open>-\<close> and white space (\<^const>\<open>featureTokens\<close>); and the title is formatted
  from these words. In particular
  \<^verbatim>\<open>"MB-95-preferred-times/remove-minimum-constraint-on-start-date"\<close> becomes
  \<^verbatim>\<open>"[MB-95] Remove minimum constraint on start date"\<close>, and
  \<^verbatim>\<open>"MB-95/__fix--the_-bug_ now_"\<close>, with runs of separators and empty pieces, becomes
  \<^verbatim>\<open>"[MB-95] Fix the bug now"\<close>.
\<close>

theorem parsePRTitle_slash_slug:
  "(letters \<noteq> [] \<and> list_all isLetter letters \<and> digits \<noteq> [] \<and> list_all isDigit digits \<and>
    (seg = [] \<or> (\<exists>s'. seg = CHR ''-'' # s' \<and> s' \<noteq> [] \<and> CHR ''/'' \<notin> set s')) \<and>
    rest \<noteq> [] \<and> \<not> list_ex isLineTerminator rest \<and>
    trim title = letters @ ''-'' @ digits @ seg @ ''/'' @ rest \<longrightarrow>
    titleWords title = letters # digits # slugWords rest \<and>
    slugWords rest = featureTokens rest \<and>
    parsePRTitle title = formatWords (letters # digits # featureTokens rest)) \<and>
   parsePRTitle ''MB-95-preferred-times/remove-minimum-constraint-on-start-date''
     = ''[MB-95] Remove minimum constraint on start date'' \<and>
   titleWords ''MB-95/__fix--the_-bug_ now_'' = [''MB'', ''95'', ''fix'', ''the'', ''bug'', ''now''] \<and>
   parsePRTitle ''MB-95/__fix--the_-bug_ now_'' = ''[MB-95] Fix the bug now''"
proof (intro conjI impI)
  assume a: "letters \<noteq> [] \<and> list_all isLetter letters \<and> digits \<noteq> [] \<and> list_all isDigit digits \<and>
    (seg = [] \<or> (\<exists>s'. seg = CHR ''-'' # s' \<and> s' \<noteq> [] \<and> CHR ''/'' \<notin> set s')) \<and>
    rest \<noteq> [] \<and> \<not> list_ex isLineTerminator rest \<and>
    trim title = letters @ ''-'' @ digits @ seg @ ''/'' @ rest"
  then have m: "slashSlugMatch (trim title) = Some (letters, digits, rest)"
    using slashSlugMatch_shape[of letters digits seg rest] by simp
  then show w: "titleWords title = letters # digits # slugWords rest"
    by (simp add: titleWords_def)
  show "slugWords rest = featureTokens rest"
    by (rule slugWords_featureTokens)
  from w show "parsePRTitle title = formatWords (letters # digits # featureTokens rest)"
    by (simp add: parsePRTitle_def slugWords_featureTokens)
next
  show "parsePRTitle ''MB-95-preferred-times/remove-minimum-constraint-on-start-date''
     = ''[MB-95] Remove minimum constraint on start date''"
    by code_simp
next
  show "titleWords ''MB-95/__fix--the_-bug_ now_'' = [''MB'', ''95'', ''fix'', ''the'', ''bug'', ''now'']"
    by code_simp
next
  show "parsePRTitle ''MB-95/__fix--the_-bug_ now_'' = ''[MB-95] Fix the bug now''"
    by code_simp
qed

theorem parsePRTitle_slash_slug_witness:
  "list_all isLetter ''Mb'' \<and> list_all isDigit ''95'' \<and>
   \<not> list_ex isLineTerminator ''_remove--minimum_ -on_'' \<and>
   trim ''  Mb-95-preferred_times/_remove--minimum_ -on_  '' =
     ''Mb'' @ ''-'' @ ''95'' @ ''-preferred_times'' @ ''/'' @ ''_remove--minimum_ -on_'' \<and>
   featureTokens ''_remove--minimum_ -on_'' = [''remove'', ''minimum'', ''on''] \<and>
   titleWords ''  Mb-95-preferred_times/_remove--minimum_ -on_  '' =
     [''Mb'', ''95'', ''remove'', ''minimum'', ''on''] \<and>
   parsePRTitle ''  Mb-95-preferred_times/_remove--minimum_ -on_  '' = ''[MB-95] Remove minimum on''"
proof -
  have h1: "list_all isLetter ''Mb''" by code_simp
  have h2: "list_all isDigit ''95''" by code_simp
  have h3: "\<not> list_ex isLineTerminator ''_remove--minimum_ -on_''" by code_simp
  have h4: "trim ''  Mb-95-preferred_times/_remove--minimum_ -on_  '' =
     ''Mb'' @ ''-'' @ ''95'' @ ''-preferred_times'' @ ''/'' @ ''_remove--minimum_ -on_''"
    by code_simp
  have h5: "\<exists>s'. ''-preferred_times'' = CHR ''-'' # s' \<and> s' \<noteq> [] \<and> CHR ''/'' \<notin> set s'"
    by simp
  have e1: "featureTokens ''_remove--minimum_ -on_'' = [''remove'', ''minimum'', ''on'']"
    by code_simp
  have e2: "formatWords [''Mb'', ''95'', ''remove'', ''minimum'', ''on''] = ''[MB-95] Remove minimum on''"
    by code_simp
  from parsePRTitle_slash_slug[of "''Mb''" "''95''" "''-preferred_times''" "''_remove--minimum_ -on_''"
      "''  Mb-95-preferred_times/_remove--minimum_ -on_  ''"]
    h1 h2 h3 h4 h5 e1 e2
  show ?thesis by simp
qed

section \<open>Properties of the image extractor\<close>

lemma sortByOrder_sort_key: "sortByOrder images = sort_key ImageInfo.order images"
  by (simp add: sortByOrder_def sort_key_def)

lemma sortByOrder_sorted: "sorted (map ImageInfo.order (sortByOrder images))"
  by (simp add: sortByOrder_sort_key)

lemma sortByOrder_stable:
  "filter (\<lambda>r. ImageInfo.order r = k) (sortByOrder images) =
   filter (\<lambda>r. ImageInfo.order r = k) images"
  unfolding sortByOrder_sort_key by (rule sort_key_stable)

text \<open>
  Claim C5. In tag mode and in link mode, for every document, the records returned are
  in ascending \<^verbatim>\<open>order\<close>, and the sort is stable: for every value \<open>k\<close>, the records of
  order \<open>k\<close> come out in the sequence in which the document has them (\<^const>\<open>tagImages\<close>
  and \<^const>\<open>mdLoop\<close> give the records in document order, before the sort). As an
  instance, three tags with the prefixes \<^verbatim>\<open>2\<close>, \<^verbatim>\<open>1\<close>, \<^verbatim>\<open>2\<close> come out as the second, the
  first, the third.
\<close>

theorem extractors_sorted_stable:
  "sorted (map ImageInfo.order (parseImages document)) \<and>
   sorted (map ImageInfo.order (parseImagesMarkdown document)) \<and>
   (\<forall>k. filter (\<lambda>r. ImageInfo.order r = k) (parseImages document) =
        filter (\<lambda>r. ImageInfo.order r = k) (tagImages document)) \<and>
   (\<forall>k. filter (\<lambda>r. ImageInfo.order r = k) (parseImagesMarkdown document) =
        filter (\<lambda>r. ImageInfo.order r = k) (mdLoop document 0)) \<and>
   map src (parseImages (imgTagOf ''2 a'' ''u1'' @ imgTagOf ''1 b'' ''u2'' @ imgTagOf ''2 c'' ''u3''))
     = [''u2'', ''u1'', ''u3''] \<and>
   map src (parseImagesMarkdown
             (imgLinkOf ''2 a'' ''u1'' @ imgLinkOf ''1 b'' ''u2'' @ imgLinkOf ''2 c'' ''u3''))
     = [''u2'', ''u1'', ''u3'']"
proof -
  have "map src (parseImages (imgTagOf ''2 a'' ''u1'' @ imgTagOf ''1 b'' ''u2'' @ imgTagOf ''2 c'' ''u3''))
     = [''u2'', ''u1'', ''u3'']"
    by code_simp
  moreover have "map src (parseImagesMarkdown
             (imgLinkOf ''2 a'' ''u1'' @ imgLinkOf ''1 b'' ''u2'' @ imgLinkOf ''2 c'' ''u3''))
     = [''u2'', ''u1'', ''u3'']"
    by code_simp
  ultimately show ?thesis
    by (simp add: parseImages_def parseImagesMarkdown_def sortByOrder_sorted sortByOrder_stable)
qed

lemma sortByOrder_single: "sortByOrder [x] = [x]"
  by (simp add: sortByOrder_def)

lemma toLower_eq_dquote: "toLower c = dquote \<longleftrightarrow> c = dquote"
  by (simp add: toLower_def dquote_def)

lemma imgTagAt_match:
  assumes "toLowerCase h = ''<img''" and "body \<noteq> []" and "list_all (\<lambda>c. c \<noteq> CHR ''>'') body"
  shows "imgTagAt (h @ body @ CHR ''>'' # rest) = Some (h @ body @ ''>'')"
proof -
  from assms(1) have len: "length h = 4" by (auto simp: toLowerCase_def)
  have tw: "takeWhile (\<lambda>c. c \<noteq> CHR ''>'') (body @ CHR ''>'' # rest) = body"
    using assms(3) by (intro takeWhile_run) simp_all
  show ?thesis
    using assms(1,2) by (simp add: imgTagAt_def Let_def len tw)
qed

lemma imgTags_single:
  assumes "imgTagAt s = Some s"
  shows "imgTags s = [s]"
proof (cases s)
  case Nil
  with assms show ?thesis by (simp add: imgTagAt_def toLowerCase_def)
next
  case (Cons c cs)
  with assms show ?thesis by simp
qed

lemma attrValueAt_match:
  assumes "toLowerCase p = name @ [CHR ''='', dquote]" and "v \<noteq> []" and "dquote \<notin> set v"
  shows "attrValueAt name (p @ v @ dquote # rest) = Some v"
proof -
  from assms(1) have "length (toLowerCase p) = length (name @ [CHR ''='', dquote])"
    by (rule arg_cong)
  then have len: "length p = length name + 2"
    by (simp add: toLowerCase_def)
  have "list_all (\<lambda>c. c \<noteq> dquote) v" using assms(3) by (auto simp: list_all_iff)
  then have tw: "takeWhile (\<lambda>c. c \<noteq> dquote) (v @ dquote # rest) = v"
    by (intro takeWhile_run) simp_all
  show ?thesis
    using assms(1,2) len by (simp add: attrValueAt_def Let_def tw)
qed

lemma attrMatch_hit: "attrValueAt name s = Some v \<Longrightarrow> attrMatch name s = Some v"
  by (cases s) (simp_all add: attrValueAt_def toLowerCase_def)

lemma attrValueAt_first:
  assumes "toLower c \<noteq> n0"
  shows "attrValueAt (n0 # ns) (c # cs) = None"
  using assms by (simp add: attrValueAt_def toLowerCase_def)

lemma attrMatch_skip_prefix:
  "list_all (\<lambda>c. toLower c \<noteq> n0) p \<Longrightarrow> attrMatch (n0 # ns) (p @ s) = attrMatch (n0 # ns) s"
  by (induction p) (simp_all add: attrValueAt_first)

lemma attrValueAt_shape:
  assumes "attrValueAt name s = Some v"
  shows "length name + 2 \<le> length s \<and> toLowerCase (take (length name + 2) s) = name @ [CHR ''='', dquote]"
proof -
  from assms have e: "toLowerCase (take (length name + 2) s) = name @ [CHR ''='', dquote]"
    by (simp add: attrValueAt_def Let_def split: if_splits)
  then have "length (toLowerCase (take (length name + 2) s)) = length (name @ [CHR ''='', dquote])"
    by (rule arg_cong)
  then have "min (length s) (length name + 2) = length name + 2"
    by (simp add: toLowerCase_def)
  then have "length name + 2 \<le> length s" by simp
  with e show ?thesis by simp
qed


lemma attrMatch_alt:
  assumes "A \<noteq> []" and "dquote \<notin> set A"
  shows "attrMatch ''alt'' (imgTagOf A U) = Some A"
proof -
  let ?rest = "'' src='' @ [dquote] @ U @ [dquote] @ ''>''"
  have t: "imgTagOf A U = ''<img '' @ ((''alt='' @ [dquote]) @ A @ dquote # ?rest)"
    by (simp add: imgTagOf_def)
  have p: "list_all (\<lambda>c. toLower c \<noteq> CHR ''a'') ''<img ''"
    by (simp add: toLower_def)
  have l: "toLowerCase (''alt='' @ [dquote]) = ''alt'' @ [CHR ''='', dquote]"
    by (simp add: toLowerCase_def toLower_def dquote_def)
  show ?thesis
    unfolding t attrMatch_skip_prefix[OF p]
    by (rule attrMatch_hit[OF attrValueAt_match[OF l assms]])
qed

lemma toLowerCase_take_nth:
  "i < n \<Longrightarrow> n \<le> length s \<Longrightarrow> toLowerCase (take n s) ! i = toLower (s ! i)"
  by (simp add: toLowerCase_def)

lemma attrValueAt_src_in_label:
  assumes "dquote \<notin> set A'" and "A' \<noteq> []"
    and "toLowerCase (drop (length A' - 4) A') \<noteq> ''src=''"
  shows "attrValueAt ''src'' (A' @ dquote # rest) = None"
proof (rule ccontr)
  assume "attrValueAt ''src'' (A' @ dquote # rest) \<noteq> None"
  then obtain v where "attrValueAt ''src'' (A' @ dquote # rest) = Some v" by auto
  note sh = attrValueAt_shape[OF this]
  have five: "length ''src'' + 2 = 5" by simp
  from sh have len: "5 \<le> length (A' @ dquote # rest)"
    and e: "toLowerCase (take 5 (A' @ dquote # rest)) = ''src='' @ [dquote]"
    unfolding five by (blast, simp)
  have nth: "toLower ((A' @ dquote # rest) ! i) = (''src='' @ [dquote]) ! i" if "i < 5" for i
  proof -
    have "toLowerCase (take 5 (A' @ dquote # rest)) ! i = toLower ((A' @ dquote # rest) ! i)"
      using that len by (rule toLowerCase_take_nth)
    with e show ?thesis by simp
  qed
  have "length A' = 4"
  proof (rule ccontr)
    assume n4: "length A' \<noteq> 4"
    show False
    proof (cases "length A' < 4")
      case True
      then have "toLower ((A' @ dquote # rest) ! length A') = (''src='' @ [dquote]) ! length A'"
        by (intro nth) simp
      then have "dquote = (''src='' @ [dquote]) ! length A'"
        by (simp add: toLower_eq_dquote[THEN iffD2])
      moreover have "(''src='' @ [dquote]) ! k \<noteq> dquote" if "k < 4" for k
      proof -
        from that have "k = 0 \<or> k = 1 \<or> k = 2 \<or> k = 3" by arith
        then show ?thesis by (auto simp: dquote_def)
      qed
      ultimately show False using True by metis
    next
      case False
      with n4 have g: "4 < length A'" by simp
      have "toLower ((A' @ dquote # rest) ! 4) = (''src='' @ [dquote]) ! 4"
        by (intro nth) simp
      then have "toLower (A' ! 4) = dquote"
        using g by (simp add: nth_append)
      then have "A' ! 4 = dquote" by (simp add: toLower_eq_dquote)
      with g assms(1) show False by (metis nth_mem)
    qed
  qed
  then have tk: "take 5 (A' @ dquote # rest) = A' @ [dquote]" by simp
  have "toLowerCase (A' @ [dquote]) = ''src='' @ [dquote]"
    using e unfolding tk .
  then have "toLowerCase A' @ [toLower dquote] = ''src='' @ [dquote]"
    by (simp add: toLowerCase_def)
  then have "toLowerCase A' = ''src=''"
    by (simp only: append1_eq_conv)
  with assms(3) \<open>length A' = 4\<close> show False by simp
qed

lemma attrMatch_src_in_label:
  assumes "dquote \<notin> set A'" and "toLowerCase (drop (length A' - 4) A') \<noteq> ''src=''"
    and "U \<noteq> []" and "dquote \<notin> set U"
  shows "attrMatch ''src'' (A' @ dquote # '' src='' @ [dquote] @ U @ [dquote] @ ''>'') = Some U"
  using assms(1,2)
proof (induction A')
  case Nil
  have p: "list_all (\<lambda>c. toLower c \<noteq> CHR ''s'') [dquote, CHR '' '']"
    by (simp add: toLower_def dquote_def)
  have l: "toLowerCase (''src='' @ [dquote]) = ''src'' @ [CHR ''='', dquote]"
    by (simp add: toLowerCase_def toLower_def dquote_def)
  have t: "[] @ dquote # '' src='' @ [dquote] @ U @ [dquote] @ ''>''
      = [dquote, CHR '' ''] @ ((''src='' @ [dquote]) @ U @ dquote # ''>'')"
    by simp
  show ?case
    unfolding t attrMatch_skip_prefix[OF p]
    by (rule attrMatch_hit[OF attrValueAt_match[OF l assms(3,4)]])
next
  case (Cons a A')
  have none: "attrValueAt ''src'' ((a # A') @ dquote # '' src='' @ [dquote] @ U @ [dquote] @ ''>'') = None"
    using Cons.prems by (intro attrValueAt_src_in_label) simp_all
  have tail: "toLowerCase (drop (length A' - 4) A') \<noteq> ''src=''"
  proof (cases "4 \<le> length A'")
    case True
    then have "length (a # A') - 4 = Suc (length A' - 4)" by simp
    then have "drop (length (a # A') - 4) (a # A') = drop (length A' - 4) A'"
      by (simp only: drop_Suc_Cons)
    with Cons.prems(2) show ?thesis by simp
  next
    case False
    then have "length (toLowerCase (drop (length A' - 4) A')) \<noteq> length ''src=''"
      by (simp add: toLowerCase_def)
    then show ?thesis by metis
  qed
  from Cons.prems(1) have "dquote \<notin> set A'" by simp
  from Cons.IH[OF this tail] none show ?case by simp
qed

lemma attrMatch_src:
  assumes "dquote \<notin> set A" and "toLowerCase (drop (length A - 4) A) \<noteq> ''src=''"
    and "U \<noteq> []" and "dquote \<notin> set U"
  shows "attrMatch ''src'' (imgTagOf A U) = Some U"
proof -
  have t: "imgTagOf A U = (''<img alt='' @ [dquote]) @ (A @ dquote # '' src='' @ [dquote] @ U @ [dquote] @ ''>'')"
    by (simp add: imgTagOf_def)
  have p: "list_all (\<lambda>c. toLower c \<noteq> CHR ''s'') (''<img alt='' @ [dquote])"
    by (simp add: toLower_def dquote_def)
  show ?thesis
    unfolding t attrMatch_skip_prefix[OF p]
    by (rule attrMatch_src_in_label[OF assms])
qed

lemma parseImages_tag:
  assumes "A \<noteq> []" and "dquote \<notin> set A" and "CHR ''>'' \<notin> set A"
    and "toLowerCase (drop (length A - 4) A) \<noteq> ''src=''"
    and "U \<noteq> []" and "dquote \<notin> set U" and "CHR ''>'' \<notin> set U"
  shows "parseImages (imgTagOf A U) = [toImageInfo A U]"
proof -
  let ?body = "'' alt='' @ [dquote] @ A @ [dquote] @ '' src='' @ [dquote] @ U @ [dquote]"
  have t: "imgTagOf A U = ''<img'' @ ?body @ CHR ''>'' # []" by (simp add: imgTagOf_def)
  have nb: "list_all (\<lambda>c. c \<noteq> CHR ''>'') ?body"
    using assms(3,7) by (auto simp: list_all_iff dquote_def)
  have "imgTagAt (''<img'' @ ?body @ CHR ''>'' # []) = Some (''<img'' @ ?body @ ''>'')"
    by (rule imgTagAt_match[OF _ _ nb]) (simp_all add: toLowerCase_def toLower_def)
  then have "imgTagAt (imgTagOf A U) = Some (imgTagOf A U)"
    unfolding t by simp
  then have tags: "imgTags (imgTagOf A U) = [imgTagOf A U]" by (rule imgTags_single)
  show ?thesis
    using assms(1,5)
    by (simp add: parseImages_def tagImages_def tags tagImage_def sortByOrder_single
        attrMatch_alt[OF assms(1,2)] attrMatch_src[OF assms(2,4,5,6)])
qed

lemma link_length: "length (imgLinkOf A U) = 5 + length A + length U"
  by (simp add: imgLinkOf_def)

lemma link_nth_label: "k < length A \<Longrightarrow> imgLinkOf A U ! (2 + k) = A ! k"
  by (simp add: imgLinkOf_def nth_append)

lemma link_nth_close: "imgLinkOf A U ! (2 + length A) = CHR '']''"
  by (simp add: imgLinkOf_def nth_append)

lemma link_nth_open: "imgLinkOf A U ! (3 + length A) = CHR ''(''"
proof -
  have "imgLinkOf A U = (''!['' @ A @ '']'') @ CHR ''('' # U @ '')''" by (simp add: imgLinkOf_def)
  moreover have "length (''!['' @ A @ '']'') = 3 + length A" by simp
  ultimately show ?thesis by (metis nth_append_length)
qed

lemma link_nth_source: "k < length U \<Longrightarrow> imgLinkOf A U ! (4 + length A + k) = U ! k"
proof -
  assume k: "k < length U"
  have "imgLinkOf A U = (''!['' @ A @ '']('') @ (U @ '')'')" by (simp add: imgLinkOf_def)
  moreover have "length (''!['' @ A @ '']('') = 4 + length A" by simp
  ultimately have "imgLinkOf A U ! (4 + length A + k) = (U @ '')'') ! k"
    by (metis nth_append_length_plus)
  with k show ?thesis by (simp add: nth_append)
qed

lemma link_nth_end: "imgLinkOf A U ! (4 + length A + length U) = CHR '')''"
proof -
  have "imgLinkOf A U = (''!['' @ A @ '']('' @ U) @ CHR '')'' # []" by (simp add: imgLinkOf_def)
  moreover have "length (''!['' @ A @ '']('' @ U) = 4 + length A + length U" by simp
  ultimately show ?thesis by (metis nth_append_length)
qed

lemma link_marker: "indexOfMarker (imgLinkOf A U) 0 = Some 0"
  by (subst indexOfMarker.simps) (simp add: imgLinkOf_def)

lemma link_readUntil:
  assumes esc: "\<forall>i<length A. A ! i \<noteq> CHR '']'' \<or> (0 < i \<and> A ! (i - 1) = CHR 0x5C)"
    and ne: "A \<noteq> []" and last: "last A \<noteq> CHR 0x5C"
  shows "k \<le> length A \<Longrightarrow> readUntil (imgLinkOf A U) (2 + k) = Some (2 + length A)"
proof (induction "length A - k" arbitrary: k)
  case 0
  then have k: "k = length A" by simp
  have "imgLinkOf A U ! (2 + length A - 1) = A ! (length A - 1)"
    using link_nth_label[of "length A - 1" A U] ne by simp
  also have "\<dots> = last A" using ne by (simp add: last_conv_nth)
  finally have prev: "imgLinkOf A U ! (2 + length A - 1) \<noteq> CHR 0x5C" using last by simp
  show ?case
    unfolding k using prev link_nth_close[of A U]
    by (subst readUntil.simps) (simp add: link_length)
next
  case (Suc d)
  then have k: "k < length A" by simp
  have cur: "imgLinkOf A U ! (2 + k) = A ! k" by (rule link_nth_label[OF k])
  have skip: "\<not> (imgLinkOf A U ! (2 + k) = CHR '']'' \<and>
      (2 + k = 0 \<or> imgLinkOf A U ! (2 + k - 1) \<noteq> CHR 0x5C))"
  proof (cases "A ! k = CHR '']''")
    case False
    with cur show ?thesis by simp
  next
    case True
    with esc k have p: "0 < k" "A ! (k - 1) = CHR 0x5C" by auto
    from p(1) k have "imgLinkOf A U ! (2 + (k - 1)) = A ! (k - 1)"
      by (intro link_nth_label) simp
    moreover from p(1) have "2 + (k - 1) = 2 + k - 1" by simp
    ultimately show ?thesis using p(2) by simp
  qed
  have "readUntil (imgLinkOf A U) (2 + k) = readUntil (imgLinkOf A U) (2 + k + 1)"
    using skip k by (subst readUntil.simps) (auto simp: link_length)
  also have "\<dots> = readUntil (imgLinkOf A U) (2 + (k + 1))" by simp
  also have "\<dots> = Some (2 + length A)"
    using Suc.hyps(2) k by (intro Suc.hyps(1)) simp_all
  finally show ?case .
qed


lemma link_scanParens:
  assumes "CHR ''('' \<notin> set U" and "CHR '')'' \<notin> set U"
  shows "k \<le> length U \<Longrightarrow>
    scanParens (imgLinkOf A U) (4 + length A + k) 1 = (5 + length A + length U, 0)"
proof (induction "length U - k" arbitrary: k)
  case 0
  then have k: "k = length U" by simp
  have stop: "scanParens (imgLinkOf A U) (5 + length A + length U) 0 = (5 + length A + length U, 0)"
    by (subst scanParens.simps) simp
  have "scanParens (imgLinkOf A U) (4 + length A + length U) 1
      = scanParens (imgLinkOf A U) (4 + length A + length U + 1) 0"
    using link_nth_end[of A U] by (subst scanParens.simps) (simp add: link_length)
  also have "\<dots> = (5 + length A + length U, 0)"
    using stop by (simp add: add.commute add.left_commute)
  finally show ?case unfolding k .
next
  case (Suc d)
  then have k: "k < length U" by simp
  then have "U ! k \<in> set U" by simp
  with assms have "U ! k \<noteq> CHR ''(''" "U ! k \<noteq> CHR '')''" by auto
  then have cur: "imgLinkOf A U ! (4 + length A + k) \<noteq> CHR ''(''"
    "imgLinkOf A U ! (4 + length A + k) \<noteq> CHR '')''"
    using link_nth_source[OF k, of A] by simp_all
  have "scanParens (imgLinkOf A U) (4 + length A + k) 1
      = scanParens (imgLinkOf A U) (4 + length A + k + 1) 1"
    using cur k by (subst scanParens.simps) (simp add: link_length)
  also have "\<dots> = scanParens (imgLinkOf A U) (4 + length A + (k + 1)) 1" by simp
  also have "\<dots> = (5 + length A + length U, 0)"
    using Suc.hyps(2) k by (intro Suc.hyps(1)) simp_all
  finally show ?case .
qed

lemma link_skipSpaces: "skipSpaces (imgLinkOf A U) (3 + length A) = 3 + length A"
  using link_nth_open[of A U] by (subst skipSpaces.simps) (simp add: isSpace_def)

lemma link_slice_label: "slice (imgLinkOf A U) 2 (2 + length A) = A"
  by (simp add: slice_def imgLinkOf_def)

lemma link_slice_source:
  "slice (imgLinkOf A U) (4 + length A) (4 + length A + length U) = U"
proof -
  have "imgLinkOf A U = (''!['' @ A @ '']('') @ (U @ '')'')" by (simp add: imgLinkOf_def)
  moreover have "length (''!['' @ A @ '']('') = 4 + length A" by simp
  ultimately have "drop (4 + length A) (imgLinkOf A U) = U @ '')''"
    by (metis append_eq_conv_conj)
  then show ?thesis by (simp add: slice_def)
qed

lemma splitAcc_no_space:
  "list_all (\<lambda>c. \<not> isSpace c) s \<Longrightarrow> splitAcc acc s = [acc @ s]"
  by (induction s arbitrary: acc) simp_all

lemma linkSource_plain:
  assumes "list_all (\<lambda>c. \<not> isSpace c) U" and "take 1 U \<noteq> ''<''"
  shows "linkSource U = U"
  using assms by (simp add: linkSource_def splitWs_def splitAcc_no_space)

lemma mdLoop_end: "mdLoop content (length content) = []"
  by (subst mdLoop.simps) simp

lemma mdLoop_link:
  assumes esc: "\<forall>i<length A. A ! i \<noteq> CHR '']'' \<or> (0 < i \<and> A ! (i - 1) = CHR 0x5C)"
    and ne: "A \<noteq> []" and last: "last A \<noteq> CHR 0x5C"
    and u: "U \<noteq> []" "list_all (\<lambda>c. \<not> isSpace c) U" "CHR ''('' \<notin> set U" "CHR '')'' \<notin> set U"
      "take 1 U \<noteq> ''<''"
  shows "mdLoop (imgLinkOf A U) 0 = [toImageInfo A U]"
proof -
  let ?c = "imgLinkOf A U"
  have pos: "0 < length ?c" by (simp add: link_length)
  have i0: "0 + 2 = 2 + (0::nat)" by simp
  have ru: "readUntil ?c (0 + 2) = Some (2 + length A)"
    unfolding i0 by (rule link_readUntil[OF esc ne last]) simp
  have i1: "2 + length A + 1 = 3 + length A" by simp
  have sk: "skipSpaces ?c (2 + length A + 1) = 3 + length A"
    unfolding i1 by (rule link_skipSpaces)
  have ch: "charAt ?c (3 + length A) = Some CHR ''(''"
    using link_nth_open[of A U] by (simp add: charAt_def link_length)
  have i2: "3 + length A + 1 = 4 + length A + 0" by simp
  have sp: "scanParens ?c (3 + length A + 1) 1 = (5 + length A + length U, 0)"
    unfolding i2 by (rule link_scanParens[OF u(3,4)]) simp
  have i5: "0 + 2 = (2::nat)" by simp
  have sl: "slice ?c (0 + 2) (2 + length A) = A"
    unfolding i5 by (rule link_slice_label)
  have i3: "5 + length A + length U - 1 = 4 + length A + length U" by simp
  have i4: "3 + length A + 1 = 4 + length A" by simp
  have si: "slice ?c (3 + length A + 1) (5 + length A + length U - 1) = U"
    unfolding i3 i4 by (rule link_slice_source)
  have "\<not> isSpace (hd U) \<and> \<not> isSpace (last U)"
    using u(1,2) by (simp add: list_all_iff)
  then have tr: "trim U = U" by (simp add: trim_id)
  have ls: "linkSource U = U" by (rule linkSource_plain[OF u(2,5)])
  have en: "mdLoop ?c (5 + length A + length U) = []"
    using mdLoop_end[of ?c] by (simp add: link_length)
  show ?thesis
    by (subst mdLoop.simps,
        simp only: pos if_True link_marker option.case ru sk ch sp prod.case sl si tr ls en
          Let_def simp_thms if_False append_Nil2)
       (simp add: ne u(1))
qed

text \<open>
  Claim C4, as stated, for every label without a double quote and without an unescaped
  \<^verbatim>\<open>]\<close>, and every source without white space and parentheses. The label \<^verbatim>\<open>a>b\<close> is
  one, and \<^verbatim>\<open>U\<close> is such a source; but in tag mode the pattern \<^verbatim>\<open><img[^>]+>\<close> ends the
  tag at the \<^verbatim>\<open>>\<close> of the label, the cut tag has no complete \<^verbatim>\<open>alt\<close> attribute and is
  skipped, while link mode keeps the record.
\<close>

theorem tag_and_link_counterexample:
  "claimLabel ''a>b'' \<and> claimSource ''U'' \<and>
   parseImages (imgTagOf ''a>b'' ''U'') = [] \<and>
   parseImagesMarkdown (imgLinkOf ''a>b'' ''U'') =
     [\<lparr>alt = ''a>b'', src = ''U'', category = ''a>b'', timing = Standalone, order = 0\<rparr>]"
  by code_simp

lemma feature_label: "claimLabel ''1. Feature_1_before'' \<and> plainLabel ''1. Feature_1_before''"
  by code_simp

lemma feature_record:
  "toImageInfo ''1. Feature_1_before'' U =
     \<lparr>alt = ''Feature 1'', src = U, category = ''Feature 1'', timing = Before, order = 1\<rparr>"
proof -
  have "parseFilename ''1. Feature_1_before'' =
      \<lparr>Parsed.order = 1, Parsed.timing = Before, formattedAlt = ''Feature 1''\<rparr>"
    by code_simp
  then show ?thesis by (simp add: toImageInfo_def)
qed

lemma tag_and_link_general:
  assumes "claimLabel A" and "plainLabel A" and "claimSource U" and "plainSource U"
  shows "parseImages (imgTagOf A U) = [toImageInfo A U] \<and>
         parseImagesMarkdown (imgLinkOf A U) = [toImageInfo A U]"
proof -
  from assms(1) have a: "A \<noteq> []" "dquote \<notin> set A"
    and esc: "\<forall>i<length A. A ! i \<noteq> CHR '']'' \<or> (0 < i \<and> A ! (i - 1) = CHR 0x5C)"
    by (simp_all add: claimLabel_def list_all_iff)
  from assms(2) have p: "CHR ''>'' \<notin> set A" "last A \<noteq> CHR 0x5C"
    "toLowerCase (drop (length A - 4) A) \<noteq> ''src=''"
    by (simp_all add: plainLabel_def)
  from assms(3) have u: "U \<noteq> []" "list_all (\<lambda>c. \<not> isSpace c) U"
    "CHR ''('' \<notin> set U" "CHR '')'' \<notin> set U"
    by (auto simp: claimSource_def list_all_iff list_ex_iff)
  from assms(4) have q: "dquote \<notin> set U" "CHR ''>'' \<notin> set U" "take 1 U \<noteq> ''<''"
    by (simp_all add: plainSource_def)
  have "parseImages (imgTagOf A U) = [toImageInfo A U]"
    by (rule parseImages_tag[OF a p(1,3) u(1) q(1,2)])
  moreover have "parseImagesMarkdown (imgLinkOf A U) = [toImageInfo A U]"
    unfolding parseImagesMarkdown_def mdLoop_link[OF esc a(1) p(2) u q(3)]
    by (rule sortByOrder_single)
  ultimately show ?thesis by simp
qed

text \<open>
  Claim C4, amended. The label is moreover without \<^verbatim>\<open>>\<close>, does not end in a backslash
  and does not end in \<^verbatim>\<open>src=\<close> (in any letter case); the source is moreover without a
  double quote and without \<^verbatim>\<open>>\<close>, and does not start with \<^verbatim>\<open><\<close>. For every such label
  \<open>A\<close> and source \<open>U\<close>, tag mode on \<^verbatim>\<open><img alt="A" src="U">\<close> and link mode on
  \<^verbatim>\<open>![A](U)\<close> return the same list, of the one record made from
  \<^verbatim>\<open>parseFilename(A)\<close> and \<open>U\<close>; for the label \<^verbatim>\<open>1. Feature_1_before\<close> this record is
  \<^verbatim>\<open>{alt: "Feature 1", src: U, category: "Feature 1", timing: "before", order: 1}\<close>.
\<close>

theorem tag_and_link_agree:
  "(claimLabel A \<and> plainLabel A \<and> claimSource U \<and> plainSource U \<longrightarrow>
      parseImages (imgTagOf A U) = [toImageInfo A U] \<and>
      parseImagesMarkdown (imgLinkOf A U) = [toImageInfo A U]) \<and>
   (claimSource U \<and> plainSource U \<longrightarrow>
      parseImages (imgTagOf ''1. Feature_1_before'' U) =
        [\<lparr>alt = ''Feature 1'', src = U, category = ''Feature 1'', timing = Before, order = 1\<rparr>] \<and>
      parseImagesMarkdown (imgLinkOf ''1. Feature_1_before'' U) =
        [\<lparr>alt = ''Feature 1'', src = U, category = ''Feature 1'', timing = Before, order = 1\<rparr>])"
  using tag_and_link_general[of A U]
    tag_and_link_general[of "''1. Feature_1_before''" U] feature_label feature_record[of U]
  by simp

theorem tag_and_link_agree_witness:
  "claimLabel ''2.Feature 25_after'' \<and> plainLabel ''2.Feature 25_after'' \<and>
   claimSource ''https://example.com/2.jpg'' \<and> plainSource ''https://example.com/2.jpg'' \<and>
   parseImages (imgTagOf ''2.Feature 25_after'' ''https://example.com/2.jpg'') =
     [\<lparr>alt = ''Feature 25'', src = ''https://example.com/2.jpg'', category = ''Feature 25'',
       timing = After, order = 2\<rparr>] \<and>
   parseImagesMarkdown (imgLinkOf ''2.Feature 25_after'' ''https://example.com/2.jpg'') =
     [\<lparr>alt = ''Feature 25'', src = ''https://example.com/2.jpg'', category = ''Feature 25'',
       timing = After, order = 2\<rparr>] \<and>
   parseImages (imgTagOf ''1. Feature_1_before'' ''https://example.com/2.jpg'') =
     parseImagesMarkdown (imgLinkOf ''1. Feature_1_before'' ''https://example.com/2.jpg'')"
proof -
  have h1: "claimLabel ''2.Feature 25_after''" by code_simp
  have h2: "plainLabel ''2.Feature 25_after''" by code_simp
  have h3: "claimSource ''https://example.com/2.jpg''" by code_simp
  have h4: "plainSource ''https://example.com/2.jpg''" by code_simp
  have r: "toImageInfo ''2.Feature 25_after'' ''https://example.com/2.jpg'' =
     \<lparr>alt = ''Feature 25'', src = ''https://example.com/2.jpg'', category = ''Feature 25'',
       timing = After, order = 2\<rparr>"
    by code_simp
  from tag_and_link_agree[of "''2.Feature 25_after''" "''https://example.com/2.jpg''"] h1 h2 h3 h4 r
  show ?thesis by simp
qed

end
